theory Spec2Isabelle
  imports Complex_Main "HOL-Library.Signed_Division"
begin

section \<open>The ckb daemon: frame pacing, queue drain, command intake, shutdown\<close>

text \<open>
  A shallow embedding of \<^verbatim>\<open>src/ckb-daemon/main.c\<close> and of the angle computation of
  \<^verbatim>\<open>src/ckb-pinwheel/main.c\<close>. The functions of the daemon's file
  (\<^verbatim>\<open>timespec_add\<close>, \<^verbatim>\<open>quit\<close>, \<^verbatim>\<open>sighandler\<close>, \<^verbatim>\<open>sighandler2\<close>, \<^verbatim>\<open>main\<close>) are
  translated statement by statement. The functions they call that live in other files
  of the daemon (\<^verbatim>\<open>usbdequeue\<close>, \<^verbatim>\<open>usb_tryreset\<close>, \<^verbatim>\<open>closeusb\<close>, \<^verbatim>\<open>readlines\<close>,
  \<^verbatim>\<open>readcmd\<close>, \<^verbatim>\<open>updateindicators\<close>, \<^verbatim>\<open>setfps\<close>, the macros \<^verbatim>\<open>IS_CONNECTED\<close>,
  \<^verbatim>\<open>timespec_gt\<close> and the constant \<^verbatim>\<open>DEV_MAX\<close>) are modelled from the specification,
  each marked as such.
\<close>

subsection \<open>Time\<close>

text \<open>
  \<^verbatim>\<open>struct timespec\<close>: seconds and nanoseconds. The fields are C \<^verbatim>\<open>long\<close>s; the
  theorems below are about normalised values (\<open>0 \<le> tv_nsec < 10^9\<close>) and increments
  of at most \<open>10^9\<close>, where no sum leaves the range of a 32-bit \<^verbatim>\<open>long\<close>, so the
  fields are unbounded integers here. C's \<^verbatim>\<open>/\<close> and \<^verbatim>\<open>%\<close> truncate towards zero:
  \<open>sdiv\<close> and \<open>smod\<close>.
\<close>

record timespec =
  tv_sec :: int
  tv_nsec :: int

text \<open>
  \<^verbatim>\<open>
  void timespec_add(struct timespec* timespec, long nanoseconds){
      nanoseconds += timespec->tv_nsec;
      timespec->tv_sec += nanoseconds / 1000000000;
      timespec->tv_nsec = nanoseconds % 1000000000;
  }
  \<close>
\<close>

definition timespec_add :: "timespec \<Rightarrow> int \<Rightarrow> timespec" where
  "timespec_add ts nanoseconds =
     (let ns = nanoseconds + tv_nsec ts
      in ts\<lparr>tv_sec := tv_sec ts + ns sdiv 1000000000, tv_nsec := ns smod 1000000000\<rparr>)"

text \<open>
  Modelled from the spec: the macro \<^verbatim>\<open>timespec_gt\<close> is defined in a header of the
  daemon, outside \<^verbatim>\<open>main.c\<close>. The specification uses it as "the deadline is later
  than": seconds first, then nanoseconds.
\<close>

definition timespec_gt :: "timespec \<Rightarrow> timespec \<Rightarrow> bool" where
  "timespec_gt a b \<longleftrightarrow>
     tv_sec a > tv_sec b \<or> (tv_sec a = tv_sec b \<and> tv_nsec a > tv_nsec b)"

text \<open>The instant a normalised timespec denotes, in nanoseconds.\<close>

definition to_ns :: "timespec \<Rightarrow> int" where
  "to_ns ts = tv_sec ts * 1000000000 + tv_nsec ts"

definition normalised :: "timespec \<Rightarrow> bool" where
  "normalised ts \<longleftrightarrow> 0 \<le> tv_nsec ts \<and> tv_nsec ts < 1000000000"

text \<open>
  The sleep interval of one tick, \<^verbatim>\<open>1000000000 / fps / (v120 ? 12 : 5)\<close>. The variable
  \<^verbatim>\<open>fps\<close> is declared outside \<^verbatim>\<open>main.c\<close>; it is a parameter here. Dividing by zero
  traps, which is the value \<open>None\<close>.
\<close>

definition frame_interval :: "nat \<Rightarrow> bool \<Rightarrow> int option" where
  "frame_interval fps v120 =
     (if fps = 0 then None
      else Some (int (1000000000 div fps div (if v120 then 12 else 5))))"

text \<open>
  The end of a tick (lines 260 to 269 of \<^verbatim>\<open>main\<close>): \<open>time0\<close> is the clock read at the
  start of the tick, \<open>time1\<close> the clock read after the sweep. The result is the
  absolute time handed to \<^verbatim>\<open>clock_nanosleep\<close>.
  \<^verbatim>\<open>
  memcpy(&nexttime, &time, sizeof(time));
  timespec_add(&nexttime, 1000000000 / fps / (v120 ? 12 : 5));
  clock_gettime(CLOCK_MONOTONIC, &time);
  timespec_add(&time, 100000);
  if(timespec_gt(nexttime, time))
      while(clock_nanosleep(CLOCK_MONOTONIC, TIMER_ABSTIME, &nexttime, 0) == EINTR);
  else
      while(clock_nanosleep(CLOCK_MONOTONIC, TIMER_ABSTIME, &time, 0) == EINTR);
  \<close>
\<close>

definition wake_time :: "nat \<Rightarrow> bool \<Rightarrow> timespec \<Rightarrow> timespec \<Rightarrow> timespec option" where
  "wake_time fps v120 time0 time1 =
     (case frame_interval fps v120 of
        None \<Rightarrow> None
      | Some d \<Rightarrow>
          let nexttime = timespec_add time0 d;
              time = timespec_add time1 100000
          in Some (if timespec_gt nexttime time then nexttime else time))"

subsection \<open>Devices, events and the collaborators of the tick\<close>

text \<open>
  One slot of the table \<^verbatim>\<open>keyboard[DEV_MAX]\<close>, with the fields \<^verbatim>\<open>main.c\<close> reads:
  \<^verbatim>\<open>infifo\<close> (the descriptor of the command channel, 0 when there is none),
  \<^verbatim>\<open>queuecount\<close> and \<^verbatim>\<open>fwversion\<close>. \<open>connected\<close> is what the macro
  \<^verbatim>\<open>IS_CONNECTED\<close> reports (the macro is defined in a header of the daemon, outside
  \<^verbatim>\<open>main.c\<close>), and \<open>pending\<close> holds the complete command lines waiting on the channel,
  oldest first. Whether \<^verbatim>\<open>IS_CONNECTED\<close> reports slot 0, the root controller, cannot be
  read off \<^verbatim>\<open>main.c\<close>: \<^verbatim>\<open>main\<close> reads its channel and \<^verbatim>\<open>quit\<close> closes it apart from the
  loops over the connected slots. So \<open>connected\<close> of slot 0 is left free: the theorems
  hold for both values, and where an example depends on it, it is given for both.
\<close>

record usbdevice =
  connected :: bool
  infifo :: nat
  queuecount :: nat
  fwversion :: nat
  pending :: "string list"

text \<open>\<^verbatim>\<open>kblistmutex\<close> and the \<^verbatim>\<open>mutex\<close> field of slot \<open>i\<close>.\<close>

datatype mutex = Kblistmutex | Kbmutex nat

text \<open>
  The calls \<^verbatim>\<open>main.c\<close> makes, in the order it makes them. A call that returns a value
  the code tests carries that value.
\<close>

datatype event =
    Lock mutex
  | TimedLock mutex bool
  | Unlock mutex
  | UsbDequeue nat int
  | UsbTryReset nat int
  | CloseUsb nat
  | ReadLines nat
  | ReadCmd nat "string list"
  | UpdateIndicators nat
  | InputClose nat
  | RevertUsb nat
  | UsbDeinit
  | Sleep timespec

text \<open>
  What the outside world decides during one tick: whether the USB transport accepts
  the message sent to device \<open>i\<close>, whether a reset of device \<open>i\<close> succeeds, how many
  USB messages a command line puts on the outgoing queue of device \<open>i\<close>, and whether
  the indicator state of device \<open>i\<close> changed since it was last pushed.
\<close>

record usb_env =
  send_ok :: "nat \<Rightarrow> bool"
  reset_ok :: "nat \<Rightarrow> bool"
  queued_by :: "nat \<Rightarrow> string \<Rightarrow> nat"
  led_changed :: "nat \<Rightarrow> bool"

text \<open>
  Modelled from the spec: \<^verbatim>\<open>usbdequeue\<close> is defined in another file of the daemon.
  It "pops at most one message from \<^verbatim>\<open>outgoing_queue\<close> and attempts to send it.
  Success: message removed, queue length decremented"; after a failure the message
  is still queued. \<^verbatim>\<open>main\<close> tests the result against 0, which is the failure; an
  empty queue is not a failure. \<open>ok\<close> tells whether the transport accepts the message.
\<close>

definition usbdequeue :: "bool \<Rightarrow> usbdevice \<Rightarrow> int \<times> usbdevice" where
  "usbdequeue ok d =
     (if queuecount d = 0 then (- 1, d)
      else if ok then (1, d\<lparr>queuecount := queuecount d - 1\<rparr>)
      else (0, d))"

text \<open>
  Modelled from the spec: \<^verbatim>\<open>usb_tryreset\<close> is defined in another file. "Attempt a
  device reset in place; on reset success, the message remains queued for the next
  tick." \<^verbatim>\<open>main\<close> reads a non-zero result as "could not be reset". \<open>ok\<close> tells whether
  the reset succeeds.
\<close>

definition usb_tryreset :: "bool \<Rightarrow> int" where
  "usb_tryreset ok = (if ok then 0 else - 1)"

text \<open>
  Modelled from the spec: \<^verbatim>\<open>closeusb\<close> is defined in another file. "Its USB handle is
  released, and it is marked Empty"; "a disconnected slot's fields are fully reset
  before reuse". The mutex of the slot is one of these fields; what \<^verbatim>\<open>closeusb\<close> does to
  it is in \<open>lock_step\<close> below.
\<close>

definition closeusb :: "usbdevice \<Rightarrow> usbdevice" where
  "closeusb d = d\<lparr>connected := False, infifo := 0, queuecount := 0, fwversion := 0,
                  pending := []\<rparr>"

text \<open>
  Modelled from the spec: \<^verbatim>\<open>readlines\<close> is defined in another file. It "reads any
  complete newline-terminated command lines available" on the channel, which takes
  them off the channel, and returns a non-zero count when there are some.
\<close>

definition readlines :: "usbdevice \<Rightarrow> string list \<times> usbdevice" where
  "readlines d = (pending d, d\<lparr>pending := []\<rparr>)"

text \<open>
  Modelled from the spec: \<^verbatim>\<open>readcmd\<close> is defined in another file. It applies the lines
  it is given to the device, "each complete line exactly once, in arrival order";
  a line may put USB messages on the device's outgoing queue, \<open>q\<close> of them.
\<close>

definition readcmd :: "(string \<Rightarrow> nat) \<Rightarrow> string list \<Rightarrow> usbdevice \<Rightarrow> usbdevice" where
  "readcmd q ls d = d\<lparr>queuecount := queuecount d + sum_list (map q ls)\<rparr>"

text \<open>
  Modelled from the spec: \<^verbatim>\<open>updateindicators\<close> is defined in another file. It "reads
  current OS-visible indicator state and, if it differs from what was last pushed,
  enqueues an update".
\<close>

definition updateindicators :: "bool \<Rightarrow> usbdevice \<Rightarrow> usbdevice" where
  "updateindicators changed d =
     (if changed then d\<lparr>queuecount := queuecount d + 1\<rparr> else d)"

subsection \<open>The state of the loop and one tick\<close>

text \<open>
  The device table and the local variable \<^verbatim>\<open>v120\<close> of \<^verbatim>\<open>main\<close>, which is declared and
  set to 0 before the \<^verbatim>\<open>while(1)\<close> and lives across ticks. \<^verbatim>\<open>DEV_MAX\<close> is the length
  of the table.
\<close>

record daemon =
  keyboard :: "usbdevice list"
  v120 :: bool

definition set_kb :: "nat \<Rightarrow> usbdevice \<Rightarrow> daemon \<Rightarrow> daemon" where
  "set_kb i d s = s\<lparr>keyboard := (keyboard s)[i := d]\<rparr>"

text \<open>A \<^verbatim>\<open>for\<close> loop over slots: the body runs on each index in turn.\<close>

fun for_each :: "('a \<Rightarrow> 's \<Rightarrow> event list \<times> 's) \<Rightarrow> 'a list \<Rightarrow> 's \<Rightarrow> event list \<times> 's" where
  "for_each f [] s = ([], s)"
| "for_each f (x # xs) s =
     (let (es, s1) = f x s; (es', s2) = for_each f xs s1 in (es @ es', s2))"

text \<open>
  \<^verbatim>\<open>
  const char* line;
  if(readlines(keyboard[i].infifo, &line))
      readcmd(keyboard + i, line);
  \<close>
\<close>

definition read_fifo :: "usb_env \<Rightarrow> nat \<Rightarrow> daemon \<Rightarrow> event list \<times> daemon" where
  "read_fifo env j s =
     (let (ls, d) = readlines (keyboard s ! j)
      in if ls \<noteq> [] then ([ReadLines j, ReadCmd j ls], set_kb j (readcmd (queued_by env j) ls d) s)
         else ([ReadLines j], set_kb j d s))"

text \<open>
  The body of the inner loop (lines 243 to 249), whose index shadows the outer one:
  \<^verbatim>\<open>
  if(keyboard[i].infifo){
      const char* line;
      if(readlines(keyboard[i].infifo, &line))
          readcmd(keyboard + i, line);
      if(keyboard[i].fwversion >= 0x0120)
          v120 = 1;
  }
  \<close>
\<close>

definition fifo_body :: "usb_env \<Rightarrow> nat \<Rightarrow> daemon \<Rightarrow> event list \<times> daemon" where
  "fifo_body env j s =
     (if infifo (keyboard s ! j) \<noteq> 0 then
        let (es, s1) = read_fifo env j s
        in (es, if fwversion (keyboard s1 ! j) \<ge> 0x0120 then s1\<lparr>v120 := True\<rparr> else s1)
      else ([], s))"

definition process_fifos :: "usb_env \<Rightarrow> daemon \<Rightarrow> event list \<times> daemon" where
  "process_fifos env s = for_each (fifo_body env) [0..<length (keyboard s)] s"

text \<open>
  The \<^verbatim>\<open>else\<close> branch of the sweep (lines 240 to 255), for the outer index \<open>i\<close>:
  \<^verbatim>\<open>
  if(keyboard[i].queuecount == 0){
      for(int i = 0; i < DEV_MAX; i++){ ... }
      updateindicators(keyboard + i, 0);
  }
  pthread_mutex_unlock(&keyboard[i].mutex);
  \<close>
\<close>

definition else_branch :: "usb_env \<Rightarrow> nat \<Rightarrow> daemon \<Rightarrow> event list \<times> daemon" where
  "else_branch env i s =
     (let (es, s1) =
            (if queuecount (keyboard s ! i) = 0 then
               let (es, s1) = process_fifos env s
               in (es @ [UpdateIndicators i],
                   set_kb i (updateindicators (led_changed env i) (keyboard s1 ! i)) s1)
             else ([], s))
      in (es @ [Unlock (Kbmutex i)], s1))"

text \<open>
  The body of the outer loop (lines 233 to 257). \<^verbatim>\<open>&&\<close> evaluates \<^verbatim>\<open>usb_tryreset\<close>
  only when \<^verbatim>\<open>usbdequeue\<close> returned 0.
  \<^verbatim>\<open>
  if(IS_CONNECTED(keyboard + i)){
      pthread_mutex_lock(&keyboard[i].mutex);
      if(usbdequeue(keyboard + i) == 0
              && usb_tryreset(keyboard + i)){
          closeusb(keyboard + i);
      } else {
          ...
          pthread_mutex_unlock(&keyboard[i].mutex);
      }
  }
  \<close>
\<close>

definition device_step :: "usb_env \<Rightarrow> nat \<Rightarrow> daemon \<Rightarrow> event list \<times> daemon" where
  "device_step env i s =
     (if connected (keyboard s ! i) then
        let (r, d) = usbdequeue (send_ok env i) (keyboard s ! i);
            s1 = set_kb i d s;
            pre = [Lock (Kbmutex i), UsbDequeue i r]
        in if r = 0 then
             let r' = usb_tryreset (reset_ok env i)
             in if r' \<noteq> 0 then
                  (pre @ [UsbTryReset i r', CloseUsb i], set_kb i (closeusb d) s1)
                else
                  let (es, s2) = else_branch env i s1 in (pre @ [UsbTryReset i r'] @ es, s2)
           else
             let (es, s2) = else_branch env i s1 in (pre @ es, s2)
      else ([], s))"

text \<open>
  The part of a tick under \<^verbatim>\<open>kblistmutex\<close> (lines 224 to 259): the root
  controller's channel first, then the sweep over all slots.
  \<^verbatim>\<open>
  pthread_mutex_lock(&kblistmutex);
  // Process commands for root controller
  if(keyboard[0].infifo){
      const char* line;
      if(readlines(keyboard[0].infifo, &line))
          readcmd(keyboard, line);
  }
  for(int i = 0; i < DEV_MAX; i++){ ... }
  pthread_mutex_unlock(&kblistmutex);
  \<close>
\<close>

definition root_fifo :: "usb_env \<Rightarrow> daemon \<Rightarrow> event list \<times> daemon" where
  "root_fifo env s = (if infifo (keyboard s ! 0) \<noteq> 0 then read_fifo env 0 s else ([], s))"

definition sweep :: "usb_env \<Rightarrow> daemon \<Rightarrow> event list \<times> daemon" where
  "sweep env s =
     (let (e0, s0) = root_fifo env s;
          (e1, s1) = for_each (device_step env) [0..<length (keyboard s0)] s0
      in ([Lock Kblistmutex] @ e0 @ e1 @ [Unlock Kblistmutex], s1))"

text \<open>
  One iteration of \<^verbatim>\<open>while(1)\<close>: the sweep, then the sleep. \<open>time0\<close> and \<open>time1\<close> are
  the two clock reads. \<open>None\<close> is the trap of a division by a zero frame rate.
\<close>

definition tick ::
  "usb_env \<Rightarrow> nat \<Rightarrow> timespec \<Rightarrow> timespec \<Rightarrow> daemon \<Rightarrow> (event list \<times> daemon) option" where
  "tick env fps time0 time1 s =
     (let (es, s1) = sweep env s
      in case wake_time fps (v120 s1) time0 time1 of
           None \<Rightarrow> None
         | Some w \<Rightarrow> Some (es @ [Sleep w], s1))"

subsection \<open>Shutdown\<close>

text \<open>
  \<^verbatim>\<open>pthread_mutex_timedlock\<close> waits at most one second and may give up; \<open>got m\<close> tells
  whether it obtained the mutex \<open>m\<close>. \<^verbatim>\<open>quit\<close> goes on either way.
  \<^verbatim>\<open>
  if(IS_CONNECTED(keyboard + i)){
      pthread_mutex_timedlock(&keyboard[i].mutex, &timeout);
      inputclose(keyboard + i);
      revertusb(keyboard + i);
      closeusb(keyboard + i);
  }
  \<close>
\<close>

definition quit_device :: "(mutex \<Rightarrow> bool) \<Rightarrow> nat \<Rightarrow> daemon \<Rightarrow> event list \<times> daemon" where
  "quit_device got i s =
     (if connected (keyboard s ! i) then
        ([TimedLock (Kbmutex i) (got (Kbmutex i)), InputClose i, RevertUsb i, CloseUsb i],
         set_kb i (closeusb (keyboard s ! i)) s)
      else ([], s))"

text \<open>
  \<^verbatim>\<open>
  void quit(){
      struct timespec timeout = { 1, 0 };
      pthread_mutex_timedlock(&kblistmutex, &timeout);
      for(int i = 1; i < DEV_MAX; i++){ ... }
      pthread_mutex_timedlock(&keyboard[0].mutex, &timeout);
      closeusb(keyboard);
      usbdeinit();
      pthread_mutex_unlock(&kblistmutex);
  }
  \<close>
\<close>

definition quit :: "(mutex \<Rightarrow> bool) \<Rightarrow> daemon \<Rightarrow> event list \<times> daemon" where
  "quit got s =
     (let (es, s1) = for_each (quit_device got) [1..<length (keyboard s)] s
      in ([TimedLock Kblistmutex (got Kblistmutex)] @ es @
          [TimedLock (Kbmutex 0) (got (Kbmutex 0)), CloseUsb 0, UsbDeinit, Unlock Kblistmutex],
          set_kb 0 (closeusb (keyboard s1 ! 0)) s1))"

text \<open>
  Modelled from the spec: what \<^verbatim>\<open>closeusb\<close>, which is defined in another file, does to
  the mutex of the slot it closes. The lock is one of the fields of a device slot, and
  "a disconnected slot's fields are fully reset before reuse"; the tick "releases the
  device lock" for every connected device, and shutdown "releases all locks on
  completion". So \<^verbatim>\<open>closeusb\<close> gives up the mutex of its slot, which the caller holds
  when it calls it; \<^verbatim>\<open>main.c\<close> never unlocks a device mutex after \<^verbatim>\<open>closeusb\<close>.

  \<open>lock_step m e h\<close> tells whether the thread holds mutex \<open>m\<close> after the call \<open>e\<close> when
  \<open>h\<close> tells whether it held it before. A timed lock that gave up took nothing.
\<close>

definition lock_step :: "mutex \<Rightarrow> event \<Rightarrow> bool \<Rightarrow> bool" where
  "lock_step m e h =
     (if e = Lock m \<or> e = TimedLock m True then True
      else if e = Unlock m \<or> (case m of Kbmutex j \<Rightarrow> e = CloseUsb j | Kblistmutex \<Rightarrow> False)
      then False
      else h)"

text \<open>Whether the thread holds mutex \<open>m\<close> after a sequence of calls, holding nothing
  before it.\<close>

definition held :: "mutex \<Rightarrow> event list \<Rightarrow> bool" where
  "held m es = fold (lock_step m) es False"

subsection \<open>Signals\<close>

text \<open>
  The three termination signals, and what can be installed for them: the default
  action, which ends the process, and the two handlers of \<^verbatim>\<open>main.c\<close>.
\<close>

datatype signal = SIGTERM | SIGINT | SIGQUIT

datatype handler = SigDfl | Sighandler | Sighandler2

text \<open>What the signal thread does that can be observed: its two messages, a call of
  \<^verbatim>\<open>quit\<close>, and \<^verbatim>\<open>exit(0)\<close>.\<close>

datatype sigevent = Caught signal | Ignoring signal | QuitCalled | Exit int

text \<open>
  The signal thread runs \<^verbatim>\<open>sigmain\<close>, and on top of it the handlers of the signals
  delivered to it, the newest first; each has got to some statement: \<open>InSigmain pc\<close>
  and \<open>InSighandler type pc\<close> are about to run statement \<open>pc\<close> of their function,
  \<open>InSighandler2 type\<close> its one statement.
\<close>

datatype activation = InSigmain nat | InSighandler signal nat | InSighandler2 signal

text \<open>
  The state of the signal thread: the handlers installed, the activations in
  progress (the running one first), the signals that arrived while they were blocked,
  whether the process still exists, and what has been observed so far.
\<close>

record sigstate =
  handlers :: "signal \<Rightarrow> handler"
  stack :: "activation list"
  pend :: "signal \<Rightarrow> bool"
  alive :: bool
  out :: "sigevent list"

text \<open>
  \<^verbatim>\<open>signal\<close> is the one of the C library of the platforms the daemon is built for
  (glibc, macOS), which has the BSD semantics: a handler stays installed when it is
  called, and while it runs for a signal that signal is blocked; other signals are
  not. A blocked signal that arrives is kept pending, once, and is delivered when the
  handler returns.
\<close>

fun handles :: "signal \<Rightarrow> activation \<Rightarrow> bool" where
  "handles g (InSigmain pc) = False"
| "handles g (InSighandler g' pc) = (g' = g)"
| "handles g (InSighandler2 g') = (g' = g)"

definition blocked :: "signal \<Rightarrow> sigstate \<Rightarrow> bool" where
  "blocked g s = list_ex (handles g) (stack s)"

text \<open>\<^verbatim>\<open>signal(g, h)\<close>; the move of the running activation to its next statement; and
  \<^verbatim>\<open>printf\<close>.\<close>

definition install :: "signal \<Rightarrow> handler \<Rightarrow> sigstate \<Rightarrow> sigstate" where
  "install g h s = s\<lparr>handlers := (handlers s)(g := h)\<rparr>"

definition goto :: "activation \<Rightarrow> sigstate \<Rightarrow> sigstate" where
  "goto a s = s\<lparr>stack := a # tl (stack s)\<rparr>"

definition print :: "sigevent \<Rightarrow> sigstate \<Rightarrow> sigstate" where
  "print e s = s\<lparr>out := out s @ [e]\<rparr>"

text \<open>An unblocked signal is delivered: the default action ends the process, a handler
  starts on top of what was running.\<close>

definition deliver :: "signal \<Rightarrow> sigstate \<Rightarrow> sigstate" where
  "deliver g s =
     (case handlers s g of
        SigDfl \<Rightarrow> s\<lparr>alive := False\<rparr>
      | Sighandler \<Rightarrow> s\<lparr>stack := InSighandler g 0 # stack s\<rparr>
      | Sighandler2 \<Rightarrow> s\<lparr>stack := InSighandler2 g # stack s\<rparr>)"

text \<open>A signal reaches the signal thread, the only thread that does not block the
  three (\<^verbatim>\<open>main\<close> blocks all signals before it starts any thread, lines 205 to 208).\<close>

definition arrive :: "signal \<Rightarrow> sigstate \<Rightarrow> sigstate" where
  "arrive g s =
     (if \<not> alive s then s
      else if blocked g s then s\<lparr>pend := (pend s)(g := True)\<rparr>
      else deliver g s)"

text \<open>The handler of signal \<open>g\<close> returns: its activation ends, the signal is unblocked,
  and if it is pending it is delivered.\<close>

definition sigreturn :: "signal \<Rightarrow> sigstate \<Rightarrow> sigstate" where
  "sigreturn g s =
     (let s1 = s\<lparr>stack := tl (stack s)\<rparr>
      in if pend s1 g \<and> \<not> blocked g s1 then deliver g (s1\<lparr>pend := (pend s1)(g := False)\<rparr>)
         else s1)"

text \<open>
  Statement \<open>pc\<close> of \<^verbatim>\<open>sigmain\<close>, after the three signals have been unblocked
  (\<^verbatim>\<open>pthread_sigmask\<close>, line 64); the last one is the endless sleep.
  \<^verbatim>\<open>
  signal(SIGTERM, sighandler);
  signal(SIGINT, sighandler);
  signal(SIGQUIT, sighandler);
  while(1){
      sleep(-1);
  }
  \<close>
\<close>

definition sigmain :: "nat \<Rightarrow> sigstate \<Rightarrow> sigstate" where
  "sigmain pc s =
     (if pc = 0 then goto (InSigmain 1) (install SIGTERM Sighandler s)
      else if pc = 1 then goto (InSigmain 2) (install SIGINT Sighandler s)
      else if pc = 2 then goto (InSigmain 3) (install SIGQUIT Sighandler s)
      else s)"

text \<open>
  \<^verbatim>\<open>
  void sighandler2(int type){
      printf("\nIgnoring signal %d (already shutting down)\n", type);
  }
  \<close>
\<close>

definition sighandler2 :: "signal \<Rightarrow> sigstate \<Rightarrow> sigstate" where
  "sighandler2 type s = sigreturn type (print (Ignoring type) s)"

text \<open>
  Statement \<open>pc\<close> of \<^verbatim>\<open>sighandler\<close>. \<^verbatim>\<open>quit\<close> can take seconds (its lock timeouts), and
  signals can arrive meanwhile: statement 4 is its call, statement 5 its return
  followed by \<^verbatim>\<open>exit(0)\<close>. \<^verbatim>\<open>sighandler\<close> never returns.
  \<^verbatim>\<open>
  void sighandler(int type){
      signal(SIGTERM, sighandler2);
      signal(SIGINT, sighandler2);
      signal(SIGQUIT, sighandler2);
      printf("\nCaught signal %d\n", type);
      quit();
      exit(0);
  }
  \<close>
\<close>

definition sighandler :: "signal \<Rightarrow> nat \<Rightarrow> sigstate \<Rightarrow> sigstate" where
  "sighandler type pc s =
     (if pc = 0 then goto (InSighandler type 1) (install SIGTERM Sighandler2 s)
      else if pc = 1 then goto (InSighandler type 2) (install SIGINT Sighandler2 s)
      else if pc = 2 then goto (InSighandler type 3) (install SIGQUIT Sighandler2 s)
      else if pc = 3 then goto (InSighandler type 4) (print (Caught type) s)
      else if pc = 4 then goto (InSighandler type 5) (print QuitCalled s)
      else (print (Exit 0) s)\<lparr>alive := False\<rparr>)"

text \<open>The running activation executes its next statement, as long as the process
  exists.\<close>

fun statement :: "activation \<Rightarrow> sigstate \<Rightarrow> sigstate" where
  "statement (InSigmain pc) s = sigmain pc s"
| "statement (InSighandler type pc) s = sighandler type pc s"
| "statement (InSighandler2 type) s = sighandler2 type s"

definition runs :: "sigstate \<Rightarrow> sigstate" where
  "runs s =
     (if alive s then (case stack s of [] \<Rightarrow> s | a # st \<Rightarrow> statement a s) else s)"

text \<open>What happens to the signal thread, in any order: a signal arrives, or the thread
  executes one statement.\<close>

datatype occurrence = Arrives signal | Runs

fun occur :: "occurrence \<Rightarrow> sigstate \<Rightarrow> sigstate" where
  "occur (Arrives sig) s = arrive sig s"
| "occur Runs s = runs s"

definition run_signals :: "occurrence list \<Rightarrow> sigstate \<Rightarrow> sigstate" where
  "run_signals os s = fold occur os s"

text \<open>The signal thread as \<^verbatim>\<open>pthread_create(&sigthread, 0, sigmain, 0)\<close> starts it, with
  the three signals unblocked and no handler installed yet.\<close>

definition sigthread :: sigstate where
  "sigthread = \<lparr>handlers = (\<lambda>_. SigDfl), stack = [InSigmain 0], pend = (\<lambda>_. False),
                alive = True, out = []\<rparr>"

text \<open>
  The shutdown-related output of a whole process. When \<^verbatim>\<open>usbinit\<close> fails, \<^verbatim>\<open>main\<close>
  calls \<^verbatim>\<open>quit\<close> itself and returns \<open>-1\<close> before the signal thread exists (lines 212
  to 215); otherwise the signal thread is started and shutdown is its business.
\<close>

definition lifetime :: "int \<Rightarrow> occurrence list \<Rightarrow> sigevent list" where
  "lifetime usbinit os =
     (if usbinit \<noteq> 0 then [QuitCalled, Exit (- 1)]
      else out (run_signals os sigthread))"

text \<open>
  What holds of the signal thread at every moment. An activation of \<^verbatim>\<open>sighandler\<close> that
  has got past a call of \<^verbatim>\<open>signal\<close> has \<^verbatim>\<open>sighandler2\<close> installed for that signal
  (\<open>frame_ok\<close>); \<^verbatim>\<open>sigmain\<close> is at the bottom (\<open>main_last\<close>); no two activations are for
  the same signal (\<open>no_repeat\<close>); and once \<^verbatim>\<open>quit\<close> has been called, it has been called
  once, by an activation of \<^verbatim>\<open>sighandler\<close> that is at its last statement with only
  activations of \<^verbatim>\<open>sighandler2\<close> above it (\<open>started\<close>), while before that no
  activation of \<^verbatim>\<open>sighandler\<close> is past the call.
\<close>

fun is_main :: "activation \<Rightarrow> bool" where
  "is_main (InSigmain pc) = True"
| "is_main _ = False"

fun main_last :: "activation list \<Rightarrow> bool" where
  "main_last [] = True"
| "main_last [a] = True"
| "main_last (a # b # st) = (\<not> is_main a \<and> main_last (b # st))"

fun no_repeat :: "activation list \<Rightarrow> bool" where
  "no_repeat [] = True"
| "no_repeat (InSigmain pc # st) = no_repeat st"
| "no_repeat (InSighandler g pc # st) = (\<not> list_ex (handles g) st \<and> no_repeat st)"
| "no_repeat (InSighandler2 g # st) = (\<not> list_ex (handles g) st \<and> no_repeat st)"

fun started :: "activation list \<Rightarrow> bool" where
  "started [] = False"
| "started (InSigmain pc # st) = False"
| "started (InSighandler g pc # st) = (pc = 5)"
| "started (InSighandler2 g # st) = started st"

fun frame_ok :: "(signal \<Rightarrow> handler) \<Rightarrow> activation \<Rightarrow> bool" where
  "frame_ok h (InSighandler g pc) =
     (pc \<le> 5 \<and> (1 \<le> pc \<longrightarrow> h SIGTERM = Sighandler2) \<and>
      (2 \<le> pc \<longrightarrow> h SIGINT = Sighandler2) \<and> (3 \<le> pc \<longrightarrow> h SIGQUIT = Sighandler2))"
| "frame_ok h _ = True"

definition sig_inv :: "sigstate \<Rightarrow> bool" where
  "sig_inv s \<longleftrightarrow>
     list_all (frame_ok (handlers s)) (stack s) \<and> main_last (stack s) \<and> no_repeat (stack s) \<and>
     (if QuitCalled \<in> set (out s)
      then count_list (out s) QuitCalled = 1 \<and> started (stack s)
      else list_all (\<lambda>a. case a of InSighandler g pc \<Rightarrow> pc \<le> 4 | _ \<Rightarrow> True) (stack s))"

text \<open>The messages of \<^verbatim>\<open>sighandler2\<close> and the exit: what can still be observed once
  \<^verbatim>\<open>quit\<close> has been called.\<close>

definition is_note :: "sigevent \<Rightarrow> bool" where
  "is_note e = (case e of Ignoring g \<Rightarrow> True | Exit r \<Rightarrow> True | _ \<Rightarrow> False)"

subsection \<open>Startup\<close>

text \<open>
  The command line as \<^verbatim>\<open>main\<close> classifies it with \<^verbatim>\<open>sscanf\<close> and \<^verbatim>\<open>strcmp\<close>, first
  match first; an argument that matches nothing is skipped.
\<close>

datatype arg =
    ArgFps nat
  | ArgLayout string
  | ArgGid nat
  | ArgNobind
  | ArgNonotify
  | ArgNonroot
  | ArgOther string

text \<open>The two variables of the startup code that decide whether and how the loop is
  entered: the global \<^verbatim>\<open>fps\<close> and the local \<^verbatim>\<open>forceroot\<close>.\<close>

record startup =
  g_fps :: nat
  forceroot :: bool

text \<open>
  Modelled from the spec: \<^verbatim>\<open>setfps\<close> is defined in another file. "\<^verbatim>\<open>--fps=<uint>\<close>
  sets target frame rate."
\<close>

definition setfps :: "nat \<Rightarrow> startup \<Rightarrow> startup" where
  "setfps newfps c = c\<lparr>g_fps := newfps\<rparr>"

fun read_arg :: "arg \<Rightarrow> startup \<Rightarrow> startup" where
  "read_arg (ArgFps newfps) c = setfps newfps c"
| "read_arg ArgNonroot c = c\<lparr>forceroot := False\<rparr>"
| "read_arg _ c = c"

text \<open>
  \<^verbatim>\<open>main\<close> up to the loop. \<open>running\<close>: the PID file names a live process; \<open>fps0\<close>: the
  value of the global \<^verbatim>\<open>fps\<close> when \<^verbatim>\<open>main\<close> starts; \<open>uid\<close>: \<^verbatim>\<open>getuid()\<close>; \<open>usbinit\<close>:
  the result of \<^verbatim>\<open>usbinit()\<close>. The result is the exit status when \<^verbatim>\<open>main\<close> ends before
  the loop, or the frame rate the loop starts with.
  \<^verbatim>\<open>
  if(getuid() != 0){
      if(forceroot){ printf(...); exit(0); } else printf(...);
  }
  // Set FPS if not done already
  if(!fps)
      setfps(30);
  ...
  if(usbinit()){
      quit();
      return -1;
  }
  \<close>
\<close>

definition main_startup :: "bool \<Rightarrow> nat \<Rightarrow> arg list \<Rightarrow> nat \<Rightarrow> int \<Rightarrow> int + nat" where
  "main_startup running fps0 argv uid usbinit =
     (if running then Inl 0
      else
        let c = fold read_arg argv \<lparr>g_fps = fps0, forceroot = True\<rparr>
        in if uid \<noteq> 0 \<and> forceroot c then Inl 0
           else
             let c1 = (if g_fps c = 0 then setfps 30 c else c)
             in if usbinit \<noteq> 0 then Inl (- 1) else Inr (g_fps c1))"

definition is_fps_arg :: "arg \<Rightarrow> bool" where
  "is_fps_arg a = (case a of ArgFps _ \<Rightarrow> True | _ \<Rightarrow> False)"

text \<open>The calls \<^verbatim>\<open>quit\<close> makes for slot \<open>i\<close>, read off the device table as it is when
  \<^verbatim>\<open>quit\<close> starts.\<close>

definition quit_block :: "(mutex \<Rightarrow> bool) \<Rightarrow> daemon \<Rightarrow> nat \<Rightarrow> event list" where
  "quit_block got s i =
     (if connected (keyboard s ! i)
      then [TimedLock (Kbmutex i) (got (Kbmutex i)), InputClose i, RevertUsb i, CloseUsb i]
      else [])"

subsection \<open>Example devices\<close>

text \<open>A root controller with an open command channel, which \<^verbatim>\<open>IS_CONNECTED\<close> does not
  report, a connected keyboard with v1.20 firmware, two queued messages and one
  pending command line, and an empty slot.\<close>

definition ex_root :: usbdevice where
  "ex_root = \<lparr>connected = False, infifo = 3, queuecount = 0, fwversion = 0, pending = []\<rparr>"

definition ex_kb :: usbdevice where
  "ex_kb = \<lparr>connected = True, infifo = 4, queuecount = 2, fwversion = 0x0120,
            pending = [''rgb ff0000'']\<rparr>"

definition ex_empty :: usbdevice where
  "ex_empty = \<lparr>connected = False, infifo = 0, queuecount = 0, fwversion = 0, pending = []\<rparr>"

subsection \<open>Reading the calls of a tick\<close>

text \<open>The command lines handed to \<^verbatim>\<open>readcmd\<close> for slot \<open>k\<close>, in the order of the calls.\<close>

definition applied :: "nat \<Rightarrow> event list \<Rightarrow> string list" where
  "applied k es =
     concat (map (\<lambda>e. case e of ReadCmd j ls \<Rightarrow> (if j = k then ls else []) | _ \<Rightarrow> []) es)"

text \<open>
  A read pass is one run of the inner loop over all command channels (lines 242 to
  250). It is always followed by the call of \<^verbatim>\<open>updateindicators\<close>, which nothing else
  makes, so that call marks it.
\<close>

definition is_indicator :: "event \<Rightarrow> bool" where
  "is_indicator e = (case e of UpdateIndicators _ \<Rightarrow> True | _ \<Rightarrow> False)"

definition pass_ran :: "event list \<Rightarrow> bool" where
  "pass_ran es = list_ex is_indicator es"

text \<open>Some slot has an open command channel and firmware version \<open>0x0120\<close> or later: the
  condition under which the inner loop sets \<^verbatim>\<open>v120\<close>.\<close>

definition fast_slot :: "daemon \<Rightarrow> bool" where
  "fast_slot s = list_ex (\<lambda>d. infifo d \<noteq> 0 \<and> fwversion d \<ge> 0x0120) (keyboard s)"

text \<open>
  How a slot can change within a tick: it is never connected anew, and as long as its
  command channel is open, the channel and the firmware version are what they were.
\<close>

definition slot_later :: "usbdevice \<Rightarrow> usbdevice \<Rightarrow> bool" where
  "slot_later d d' \<longleftrightarrow>
     (connected d' \<longrightarrow> connected d) \<and>
     (infifo d' \<noteq> 0 \<longrightarrow> infifo d' = infifo d \<and> fwversion d' = fwversion d)"

text \<open>
  What every piece of the sweep guarantees, from the state before it, its calls and
  the state after it: the table keeps its size, \<^verbatim>\<open>v120\<close> is not cleared and is set only
  in the presence of a slot as above, and for every slot whose channel is still open
  the lines applied followed by the lines still pending are the lines that were
  pending.
\<close>

definition fifo_rel :: "daemon \<Rightarrow> event list \<Rightarrow> daemon \<Rightarrow> bool" where
  "fifo_rel s es s' \<longleftrightarrow>
     length (keyboard s') = length (keyboard s) \<and>
     (v120 s \<longrightarrow> v120 s') \<and>
     (v120 s' \<longrightarrow> v120 s \<or> fast_slot s) \<and>
     (\<forall>k < length (keyboard s).
        slot_later (keyboard s ! k) (keyboard s' ! k) \<and>
        (infifo (keyboard s' ! k) \<noteq> 0 \<longrightarrow>
           applied k es @ pending (keyboard s' ! k) = pending (keyboard s ! k)) \<and>
        (pending (keyboard s ! k) = [] \<longrightarrow>
           applied k es = [] \<and> pending (keyboard s' ! k) = []))"

text \<open>
  What every step of the outer loop guarantees in addition: after a read pass every
  open channel is empty and \<^verbatim>\<open>v120\<close> is set if a slot as above exists; without a read
  pass \<^verbatim>\<open>v120\<close> is unchanged and no line is applied.
\<close>

definition step_rel :: "daemon \<Rightarrow> event list \<Rightarrow> daemon \<Rightarrow> bool" where
  "step_rel s es s' \<longleftrightarrow>
     fifo_rel s es s' \<and>
     (pass_ran es \<and> fast_slot s' \<longrightarrow> v120 s') \<and>
     (pass_ran es \<longrightarrow>
        (\<forall>k < length (keyboard s). infifo (keyboard s' ! k) \<noteq> 0 \<longrightarrow> pending (keyboard s' ! k) = [])) \<and>
     (\<not> pass_ran es \<longrightarrow> v120 s' = v120 s \<and> (\<forall>k. applied k es = []))"

text \<open>What the steps of the other slots leave alone in slot \<open>i\<close> until its turn: it
  stays connected or not, and its outgoing queue does not shrink.\<close>

definition waits :: "nat \<Rightarrow> daemon \<Rightarrow> daemon \<Rightarrow> bool" where
  "waits i s s' \<longleftrightarrow>
     length (keyboard s') = length (keyboard s) \<and>
     connected (keyboard s' ! i) = connected (keyboard s ! i) \<and>
     queuecount (keyboard s ! i) \<le> queuecount (keyboard s' ! i)"

text \<open>The slot whose lock, queue or handle a call concerns.\<close>

fun about :: "event \<Rightarrow> nat option" where
  "about (Lock m) = (case m of Kbmutex i \<Rightarrow> Some i | Kblistmutex \<Rightarrow> None)"
| "about (TimedLock m g) = (case m of Kbmutex i \<Rightarrow> Some i | Kblistmutex \<Rightarrow> None)"
| "about (Unlock m) = (case m of Kbmutex i \<Rightarrow> Some i | Kblistmutex \<Rightarrow> None)"
| "about (UsbDequeue i r) = Some i"
| "about (UsbTryReset i r) = Some i"
| "about (CloseUsb i) = Some i"
| "about (UpdateIndicators i) = Some i"
| "about _ = None"

definition is_dequeue :: "nat \<Rightarrow> event \<Rightarrow> bool" where
  "is_dequeue i e = (case e of UsbDequeue j r \<Rightarrow> j = i | _ \<Rightarrow> False)"

text \<open>The device table as it is when the outer loop reaches slot \<open>i\<close>: after the read of
  the root controller's channel and the steps of the slots before \<open>i\<close>.\<close>

definition turn :: "usb_env \<Rightarrow> daemon \<Rightarrow> nat \<Rightarrow> daemon" where
  "turn env s i = snd (for_each (device_step env) [0..<i] (snd (root_fifo env s)))"

text \<open>
  The conditions of lines 233, 236 and 240 under which the step of slot \<open>i\<close>, started on
  the table \<open>t\<close>, reaches the inner loop: the slot is connected, the \<^verbatim>\<open>if\<close> of line 236
  takes its \<^verbatim>\<open>else\<close> branch, and the queue is empty after the call of \<^verbatim>\<open>usbdequeue\<close>.
\<close>

definition pass_open :: "usb_env \<Rightarrow> nat \<Rightarrow> daemon \<Rightarrow> bool" where
  "pass_open env i t \<longleftrightarrow>
     connected (keyboard t ! i) \<and>
     (let (r, d) = usbdequeue (send_ok env i) (keyboard t ! i)
      in \<not> (r = 0 \<and> usb_tryreset (reset_ok env i) \<noteq> 0) \<and> queuecount d = 0)"

text \<open>Example tables and transports: one where every send succeeds, one where sends
  and resets fail, one where the indicator state has changed.\<close>

definition ex_state :: daemon where
  "ex_state = \<lparr>keyboard = [ex_root, ex_kb], v120 = False\<rparr>"

definition ex_env :: usb_env where
  "ex_env = \<lparr>send_ok = (\<lambda>_. True), reset_ok = (\<lambda>_. True), queued_by = (\<lambda>_ _. 0),
             led_changed = (\<lambda>_. False)\<rparr>"

definition ex_env_fail :: usb_env where
  "ex_env_fail = \<lparr>send_ok = (\<lambda>_. False), reset_ok = (\<lambda>_. False), queued_by = (\<lambda>_ _. 0),
                  led_changed = (\<lambda>_. False)\<rparr>"

definition ex_env_led :: usb_env where
  "ex_env_led = \<lparr>send_ok = (\<lambda>_. True), reset_ok = (\<lambda>_. True), queued_by = (\<lambda>_ _. 0),
                 led_changed = (\<lambda>_. True)\<rparr>"

subsection \<open>The pinwheel effect: floating point\<close>

text \<open>
  \<^verbatim>\<open>ckb-pinwheel/main.c\<close> computes in \<^verbatim>\<open>double\<close> and \<^verbatim>\<open>float\<close>. A finite value of either
  type is the rational number it denotes, and an operation is the exact operation
  followed by rounding to the type of its result, to nearest with ties to even
  (every operation is evaluated in its own type, as on x86-64 and ARM64). \<open>round_fp p
  emin\<close> rounds to the format with \<open>p\<close> significant bits and least exponent \<open>emin\<close>;
  overflow is left out, the values below being far from it.

  \<open>bitlen a\<close> is the number of bits of \<open>a\<close>, \<open>pow2 e\<close> is \<open>2\<close> to the power \<open>e\<close> and \<open>ilog2 v\<close> is
  the exponent of \<open>v\<close>, the greatest \<open>e\<close> with \<open>2^e \<le> |v|\<close>.
\<close>

function bitlen :: "int \<Rightarrow> int" where
  "bitlen a = (if a \<le> 0 then 0 else 1 + bitlen (a div 2))"
  by pat_completeness auto
termination
  by (relation "measure nat") auto

definition pow2 :: "int \<Rightarrow> rat" where
  "pow2 e = (if 0 \<le> e then 2 ^ nat e else 1 / 2 ^ nat (- e))"

definition ilog2 :: "rat \<Rightarrow> int" where
  "ilog2 v = (let (a, b) = quotient_of \<bar>v\<bar>;
                  e = bitlen a - bitlen b
              in if pow2 e \<le> \<bar>v\<bar> then e else e - 1)"

text \<open>The integer nearest to \<open>v\<close>, the even one of two equally near.\<close>

definition rne :: "rat \<Rightarrow> int" where
  "rne v = (let f = \<lfloor>v\<rfloor>; r = v - of_int f
            in if r < 1 / 2 then f else if 1 / 2 < r then f + 1
               else if even f then f else f + 1)"

definition round_fp :: "nat \<Rightarrow> int \<Rightarrow> rat \<Rightarrow> rat" where
  "round_fp p emin v =
     (if v = 0 then 0
      else let e = max (ilog2 v) emin; u = pow2 (e - int p + 1)
           in of_int (rne (v / u)) * u)"

definition as_double :: "rat \<Rightarrow> rat" where
  "as_double = round_fp 53 (- 1022)"

definition as_float :: "rat \<Rightarrow> rat" where
  "as_float = round_fp 24 (- 126)"

text \<open>\<^verbatim>\<open>fmod(a, b)\<close> is \<open>a - n * b\<close> for the integer \<open>n\<close> that is \<open>a / b\<close> with its fraction
  cut off: it has the sign of \<open>a\<close>, and it is exact.\<close>

definition c_fmod :: "rat \<Rightarrow> rat \<Rightarrow> rat" where
  "c_fmod a b = (let q = a / b; t = (if 0 \<le> q then \<lfloor>q\<rfloor> else \<lceil>q\<rceil>) in a - of_int t * b)"

text \<open>\<^verbatim>\<open>M_PI\<close> of \<^verbatim>\<open><math.h>\<close>, \<open>3.14159265358979323846\<close>, is the \<^verbatim>\<open>double\<close> nearest to
  \<open>\<pi>\<close>, with the bits \<^verbatim>\<open>0x400921FB54442D18\<close>.\<close>

definition M_PI :: rat where
  "M_PI = 884279719003555 / 2 ^ 48"

text \<open>
  \<^verbatim>\<open>
  #define ANGLE(theta) fmod((theta) + M_PI * 2., M_PI * 2.)
  \<close>
  for an argument of type \<^verbatim>\<open>double\<close>.
\<close>

definition ANGLE :: "rat \<Rightarrow> rat" where
  "ANGLE theta = c_fmod (as_double (theta + as_double (M_PI * 2))) (as_double (M_PI * 2))"

text \<open>
  The globals of the effect:
  \<^verbatim>\<open>
  double frame = -1.;
  float x, y;
  \<close>
\<close>

record pinwheel =
  pw_frame :: rat
  pw_x :: rat
  pw_y :: rat

text \<open>
  \<^verbatim>\<open>
  void ckb_start(ckb_runctx* context){
      frame = 0.;
      x = context->width / 2.f;
      y = context->height / 2.f;
  }
  \<close>
  The header with \<^verbatim>\<open>ckb_runctx\<close> and \<^verbatim>\<open>ckb_key\<close> is not under \<^verbatim>\<open>src\<close>: the size of the
  keyboard and the position of a key are taken to be integers.
\<close>

definition ckb_start :: "nat \<Rightarrow> nat \<Rightarrow> pinwheel \<Rightarrow> pinwheel" where
  "ckb_start width height p =
     p\<lparr>pw_frame := 0,
       pw_x := as_float (as_float (of_nat width) / 2),
       pw_y := as_float (as_float (of_nat height) / 2)\<rparr>"

text \<open>
  The head of \<^verbatim>\<open>ckb_frame\<close>:
  \<^verbatim>\<open>
  if(frame < 0.)
      ckb_start(context);
  frame += delta;
  if(frame > 1.)
      frame -= 1.;
  \<close>
\<close>

definition next_frame :: "nat \<Rightarrow> nat \<Rightarrow> rat \<Rightarrow> pinwheel \<Rightarrow> pinwheel" where
  "next_frame width height delta p =
     (let p1 = (if pw_frame p < 0 then ckb_start width height p else p);
          f = as_double (pw_frame p1 + delta)
      in p1\<lparr>pw_frame := (if f > 1 then as_double (f - 1) else f)\<rparr>)"

text \<open>
  \<^verbatim>\<open>
  float position = ANGLE(-frame * M_PI * 2.);
  \<close>
\<close>

definition position_of :: "rat \<Rightarrow> rat" where
  "position_of f = as_float (ANGLE (as_double (as_double (- f * M_PI) * 2)))"

text \<open>
  The angle of one key. \<^verbatim>\<open>atan2\<close> is the one of the C library, a parameter here.
  \<^verbatim>\<open>
  float theta;
  if(key->x == x && key->y == y)
      theta = 0.f;
  else
      theta = ANGLE(ANGLE(atan2(x - key->x, y - key->y)) - position);
  if(symmetric && theta > M_PI)
      theta = M_PI * 2. - theta;
  \<close>
\<close>

definition key_theta ::
  "(rat \<Rightarrow> rat \<Rightarrow> rat) \<Rightarrow> bool \<Rightarrow> pinwheel \<Rightarrow> rat \<Rightarrow> int \<times> int \<Rightarrow> rat" where
  "key_theta atan2 symmetric p position key =
     (let kx = as_float (of_int (fst key)); ky = as_float (of_int (snd key));
          theta = (if kx = pw_x p \<and> ky = pw_y p then 0
                   else as_float (ANGLE (as_double
                          (ANGLE (atan2 (as_float (pw_x p - kx)) (as_float (pw_y p - ky)))
                           - position))))
      in if symmetric \<and> theta > M_PI then as_float (as_double (M_PI * 2 - theta)) else theta)"

text \<open>\<^verbatim>\<open>ckb_frame\<close>, as far as the angles go: the angle of every key, in the order of the
  keys, and the globals after the call.\<close>

definition ckb_frame ::
  "(rat \<Rightarrow> rat \<Rightarrow> rat) \<Rightarrow> bool \<Rightarrow> nat \<Rightarrow> nat \<Rightarrow> (int \<times> int) list \<Rightarrow> rat \<Rightarrow> pinwheel \<Rightarrow>
   rat list \<times> pinwheel" where
  "ckb_frame atan2 symmetric width height keys delta p =
     (let p1 = next_frame width height delta p;
          position = position_of (pw_frame p1)
      in (map (key_theta atan2 symmetric p1 position) keys, p1))"

subsection \<open>Facts about time\<close>

lemma timespec_add_to_ns:
  assumes "0 \<le> n + tv_nsec ts"
  shows "to_ns (timespec_add ts n) = to_ns ts + n"
proof -
  let ?k = "n + tv_nsec ts"
  have d: "?k sdiv 1000000000 = ?k div 1000000000"
    using assms by (simp add: signed_divide_int_def sgn_if)
  have m: "?k smod 1000000000 = ?k mod 1000000000"
    using assms by (simp add: signed_modulo_int_def sgn_if)
  have "(?k div 1000000000) * 1000000000 + ?k mod 1000000000 = ?k"
    by simp
  then show ?thesis
    by (simp add: timespec_add_def to_ns_def Let_def d m algebra_simps)
qed

lemma timespec_add_normalised:
  assumes "0 \<le> n + tv_nsec ts"
  shows "normalised (timespec_add ts n)"
proof -
  let ?k = "n + tv_nsec ts"
  have m: "?k smod 1000000000 = ?k mod 1000000000"
    using assms by (simp add: signed_modulo_int_def sgn_if)
  show ?thesis
    by (simp add: timespec_add_def normalised_def Let_def m)
qed

lemma timespec_gt_to_ns:
  assumes "normalised a" and "normalised b"
  shows "timespec_gt a b \<longleftrightarrow> to_ns a > to_ns b"
proof -
  have "tv_sec a > tv_sec b \<Longrightarrow> to_ns a > to_ns b"
  proof -
    assume "tv_sec a > tv_sec b"
    then have "tv_sec b + 1 \<le> tv_sec a" by simp
    then have "(tv_sec b + 1) * 1000000000 \<le> tv_sec a * 1000000000" by simp
    then show ?thesis
      using assms by (simp add: to_ns_def normalised_def algebra_simps)
  qed
  moreover have "tv_sec a < tv_sec b \<Longrightarrow> to_ns a < to_ns b"
  proof -
    assume "tv_sec a < tv_sec b"
    then have "tv_sec a + 1 \<le> tv_sec b" by simp
    then have "(tv_sec a + 1) * 1000000000 \<le> tv_sec b * 1000000000" by simp
    then show ?thesis
      using assms by (simp add: to_ns_def normalised_def algebra_simps)
  qed
  moreover have "tv_sec a = tv_sec b \<Longrightarrow> (to_ns a > to_ns b \<longleftrightarrow> tv_nsec a > tv_nsec b)"
    by (simp add: to_ns_def)
  ultimately show ?thesis
    unfolding timespec_gt_def by (cases "tv_sec a" "tv_sec b" rule: linorder_cases) auto
qed

lemma frame_interval_value:
  assumes "0 < fps"
  shows "frame_interval fps v =
           Some (int (1000000000 div (fps * (if v then 12 else 5))))"
  using assms by (simp add: frame_interval_def div_mult2_eq)

text \<open>
  C2. For every frame rate \<open>fps > 0\<close> and the tick's packet multiplier \<open>m\<close> (5 or 12),
  the tick computes the deadline "start of the tick plus \<open>10^9 / (fps * m)\<close>
  nanoseconds" (integer division, as the nanosecond count is a C integer); when that
  deadline is less than 100000 ns after the clock read at the end of the sweep, it
  sleeps until that clock value plus 100000 ns instead. So the wake time is the later
  of the two, it is at least 100000 ns after the second clock read, and measured
  from the start of the tick the interval is \<open>10^9 / (fps * m)\<close> clamped from below.
\<close>

theorem wake_time_clamped:
  assumes "0 < fps" and "normalised time0" and "normalised time1"
    and "m = (if v then 12 else 5)"
    and "delta = int (1000000000 div (fps * m))"
  shows "\<exists>w. wake_time fps v time0 time1 = Some w \<and> normalised w \<and>
           to_ns w = (if to_ns time0 + delta < to_ns time1 + 100000
                      then to_ns time1 + 100000 else to_ns time0 + delta) \<and>
           to_ns w = max (to_ns time0 + delta) (to_ns time1 + 100000) \<and>
           to_ns w - to_ns time1 \<ge> 100000 \<and>
           to_ns w - to_ns time0 = max delta (to_ns time1 - to_ns time0 + 100000)"
proof -
  have fi: "frame_interval fps v = Some delta"
    using assms(1,4,5) by (simp add: frame_interval_value)
  have d0: "0 \<le> delta" using assms(5) by simp
  let ?a = "timespec_add time0 delta"
  let ?b = "timespec_add time1 100000"
  have p0: "0 \<le> delta + tv_nsec time0" and p1: "0 \<le> 100000 + tv_nsec time1"
    using assms(2,3) d0 by (simp_all add: normalised_def)
  have na: "normalised ?a" and nb: "normalised ?b"
    by (rule timespec_add_normalised [OF p0], rule timespec_add_normalised [OF p1])
  have ta: "to_ns ?a = to_ns time0 + delta" and tb: "to_ns ?b = to_ns time1 + 100000"
    by (rule timespec_add_to_ns [OF p0], rule timespec_add_to_ns [OF p1])
  have gt: "timespec_gt ?a ?b \<longleftrightarrow> to_ns time0 + delta > to_ns time1 + 100000"
    using timespec_gt_to_ns [OF na nb] ta tb by simp
  have w: "wake_time fps v time0 time1 = Some (if timespec_gt ?a ?b then ?a else ?b)"
    by (simp add: wake_time_def fi Let_def)
  show ?thesis
  proof (cases "timespec_gt ?a ?b")
    case True
    with w gt na ta show ?thesis by (simp add: max_def)
  next
    case False
    with w gt nb tb show ?thesis by (simp add: max_def)
  qed
qed

theorem wake_time_clamped_witness:
  "wake_time 30 False \<lparr>tv_sec = 7, tv_nsec = 999000000\<rparr> \<lparr>tv_sec = 7, tv_nsec = 999400000\<rparr>
     = Some \<lparr>tv_sec = 8, tv_nsec = 5666666\<rparr> \<and>
   wake_time 60 True \<lparr>tv_sec = 7, tv_nsec = 0\<rparr> \<lparr>tv_sec = 7, tv_nsec = 1300000\<rparr>
     = Some \<lparr>tv_sec = 7, tv_nsec = 1400000\<rparr> \<and>
   (\<exists>w. wake_time 30 False \<lparr>tv_sec = 7, tv_nsec = 999000000\<rparr> \<lparr>tv_sec = 7, tv_nsec = 999400000\<rparr>
           = Some w \<and> to_ns w = 8005666666)"
proof -
  let ?t0 = "\<lparr>tv_sec = 7, tv_nsec = 999000000\<rparr>"
  let ?t1 = "\<lparr>tv_sec = 7, tv_nsec = 999400000\<rparr>"
  have a: "wake_time 30 False ?t0 ?t1 = Some \<lparr>tv_sec = 8, tv_nsec = 5666666\<rparr>"
    by (simp add: wake_time_def frame_interval_def timespec_add_def timespec_gt_def Let_def)
  have b: "wake_time 60 True \<lparr>tv_sec = 7, tv_nsec = 0\<rparr> \<lparr>tv_sec = 7, tv_nsec = 1300000\<rparr>
             = Some \<lparr>tv_sec = 7, tv_nsec = 1400000\<rparr>"
    by (simp add: wake_time_def frame_interval_def timespec_add_def timespec_gt_def Let_def)
  have "\<exists>w. wake_time 30 False ?t0 ?t1 = Some w \<and> normalised w \<and>
           to_ns w = (if to_ns ?t0 + 6666666 < to_ns ?t1 + 100000
                      then to_ns ?t1 + 100000 else to_ns ?t0 + 6666666) \<and>
           to_ns w = max (to_ns ?t0 + 6666666) (to_ns ?t1 + 100000) \<and>
           to_ns w - to_ns ?t1 \<ge> 100000 \<and>
           to_ns w - to_ns ?t0 = max 6666666 (to_ns ?t1 - to_ns ?t0 + 100000)"
    using wake_time_clamped [of 30 ?t0 ?t1 5 False 6666666]
    by (simp add: normalised_def)
  then have c: "\<exists>w. wake_time 30 False ?t0 ?t1 = Some w \<and> to_ns w = 8005666666"
    by (auto simp: to_ns_def)
  from a b c show ?thesis by blast
qed

subsection \<open>Startup: the frame rate the loop starts with\<close>

lemma fold_read_arg_nofps:
  "\<forall>a \<in> set argv. \<not> is_fps_arg a \<Longrightarrow> g_fps (fold read_arg argv c) = g_fps c"
proof (induction argv arbitrary: c)
  case Nil
  show ?case by simp
next
  case (Cons a argv)
  then have "g_fps (read_arg a c) = g_fps c"
    by (cases a) (simp_all add: is_fps_arg_def)
  with Cons show ?case by simp
qed

lemma fold_read_arg_forceroot:
  "forceroot (fold read_arg argv c) \<longleftrightarrow> forceroot c \<and> ArgNonroot \<notin> set argv"
proof (induction argv arbitrary: c)
  case Nil
  show ?case by simp
next
  case (Cons a argv)
  have "forceroot (read_arg a c) \<longleftrightarrow> forceroot c \<and> a \<noteq> ArgNonroot"
    by (cases a) (simp_all add: setfps_def)
  with Cons show ?case by auto
qed

text \<open>
  C10. When no \<^verbatim>\<open>--fps\<close> flag is given and the global \<^verbatim>\<open>fps\<close> is therefore still 0
  after the arguments are read, \<^verbatim>\<open>main\<close> sets the frame rate to 30 before the loop;
  and whatever the arguments are, the frame rate with which the loop is entered is
  not zero, so the division that computes the first sleep interval is defined.
  The loop is reached whenever no other instance runs, the user is root or
  \<^verbatim>\<open>--nonroot\<close> is given, and \<^verbatim>\<open>usbinit\<close> succeeds.
\<close>

theorem default_fps:
  "(main_startup running fps0 argv uid usbinit = Inr f \<longrightarrow> f \<noteq> 0 \<and> frame_interval f v \<noteq> None) \<and>
   ((\<forall>a \<in> set argv. \<not> is_fps_arg a) \<and> fps0 = 0 \<and>
      main_startup running fps0 argv uid usbinit = Inr f \<longrightarrow> f = 30) \<and>
   (\<not> running \<and> (uid = 0 \<or> ArgNonroot \<in> set argv) \<and> usbinit = 0 \<longrightarrow>
      (\<exists>f. main_startup running fps0 argv uid usbinit = Inr f))"
proof (intro conjI impI)
  assume "main_startup running fps0 argv uid usbinit = Inr f"
  then show "f \<noteq> 0"
    by (auto simp: main_startup_def Let_def setfps_def split: if_splits)
  then show "frame_interval f v \<noteq> None"
    by (simp add: frame_interval_def)
next
  assume a: "(\<forall>a \<in> set argv. \<not> is_fps_arg a) \<and> fps0 = 0 \<and>
      main_startup running fps0 argv uid usbinit = Inr f"
  then have "g_fps (fold read_arg argv \<lparr>g_fps = fps0, forceroot = True\<rparr>) = 0"
    by (simp add: fold_read_arg_nofps)
  with a show "f = 30"
    by (auto simp: main_startup_def Let_def setfps_def split: if_splits)
next
  assume "\<not> running \<and> (uid = 0 \<or> ArgNonroot \<in> set argv) \<and> usbinit = 0"
  then show "\<exists>f. main_startup running fps0 argv uid usbinit = Inr f"
    by (auto simp: main_startup_def Let_def fold_read_arg_forceroot)
qed

theorem default_fps_witness:
  "main_startup False 0 [ArgLayout ''de'', ArgNonroot] 1000 0 = Inr 30 \<and>
   frame_interval 30 False = Some 6666666 \<and>
   main_startup False 0 [ArgFps 0] 0 0 = Inr 30 \<and>
   main_startup False 0 [ArgFps 60, ArgNobind] 0 0 = Inr 60"
proof -
  let ?argv = "[ArgLayout ''de'', ArgNonroot]"
  have nofps: "\<forall>a \<in> set ?argv. \<not> is_fps_arg a"
    by (simp add: is_fps_arg_def)
  from default_fps [of False 0 ?argv 1000 0]
  obtain f where f: "main_startup False 0 ?argv 1000 0 = Inr f"
    by auto
  with default_fps [of False 0 ?argv 1000 0 f False] nofps
  have "f = 30" by simp
  with f have a: "main_startup False 0 ?argv 1000 0 = Inr 30" by simp
  have b: "frame_interval 30 False = Some 6666666"
    by (simp add: frame_interval_def)
  have c: "main_startup False 0 [ArgFps 0] 0 0 = Inr 30"
    by (simp add: main_startup_def setfps_def)
  have d: "main_startup False 0 [ArgFps 60, ArgNobind] 0 0 = Inr 60"
    by (simp add: main_startup_def setfps_def)
  from a b c d show ?thesis by simp
qed

subsection \<open>Signals: shutdown runs once\<close>

lemma sig_inv_start: "sig_inv sigthread"
  by (simp add: sig_inv_def sigthread_def)

lemma sig_inv_aside:
  "sig_inv (s\<lparr>pend := p\<rparr>) = sig_inv s" "sig_inv (s\<lparr>alive := b\<rparr>) = sig_inv s"
  by (simp_all add: sig_inv_def)

lemma main_last_push: "\<not> is_main a \<Longrightarrow> main_last st \<Longrightarrow> main_last (a # st)"
  by (cases st) simp_all

lemma main_last_pop: "main_last (a # st) \<Longrightarrow> main_last st"
  by (cases st) simp_all

lemma main_last_top: "main_last (InSigmain pc # st) \<Longrightarrow> st = []"
  by (cases st) simp_all

lemma frame_ok_install: "frame_ok h a \<Longrightarrow> frame_ok (h(g := Sighandler2)) a"
  by (cases a) auto

lemma started_handlers:
  "started st \<Longrightarrow> list_all (frame_ok h) st \<Longrightarrow> h g = Sighandler2"
  by (induction st rule: started.induct) (cases g; simp)+

lemma sig_inv_deliver:
  assumes "sig_inv s" and "\<not> blocked g s"
  shows "sig_inv (deliver g s)"
proof (cases "handlers s g")
  case SigDfl
  with assms show ?thesis by (simp add: deliver_def sig_inv_def)
next
  case Sighandler
  have "QuitCalled \<notin> set (out s)"
    using assms(1) Sighandler started_handlers [of "stack s" "handlers s" g]
    by (auto simp: sig_inv_def split: if_splits)
  with assms Sighandler show ?thesis
    by (simp add: deliver_def sig_inv_def blocked_def main_last_push)
next
  case Sighandler2
  with assms show ?thesis
    by (simp add: deliver_def sig_inv_def blocked_def main_last_push)
qed

lemma sig_inv_arrive: "sig_inv s \<Longrightarrow> sig_inv (arrive g s)"
  by (simp add: arrive_def sig_inv_aside sig_inv_deliver)

lemma sig_inv_sighandler2:
  assumes "sig_inv s" and top: "stack s = InSighandler2 g # st"
  shows "sig_inv (sighandler2 g s)"
proof -
  let ?s1 = "(print (Ignoring g) s)\<lparr>stack := tl (stack (print (Ignoring g) s))\<rparr>"
  have i: "sig_inv ?s1"
    using assms by (auto simp: sig_inv_def print_def dest: main_last_pop)
  have b: "\<not> blocked g ?s1"
    using assms by (simp add: sig_inv_def print_def blocked_def)
  then have "\<not> blocked g (?s1\<lparr>pend := (pend ?s1)(g := False)\<rparr>)"
    by (simp add: blocked_def)
  with i have "sig_inv (deliver g (?s1\<lparr>pend := (pend ?s1)(g := False)\<rparr>))"
    by (intro sig_inv_deliver) (simp_all add: sig_inv_aside)
  with i show ?thesis
    by (simp add: sighandler2_def sigreturn_def Let_def)
qed

lemma sig_inv_sighandler:
  assumes "sig_inv s" and top: "stack s = InSighandler g pc # st"
  shows "sig_inv (sighandler g pc s)"
proof -
  have ok: "list_all (frame_ok (handlers s)) st" "frame_ok (handlers s) (InSighandler g pc)"
    and ml: "main_last (InSighandler g pc # st)" and nr: "no_repeat (InSighandler g pc # st)"
    using assms by (simp_all add: sig_inv_def)
  have ml': "main_last (InSighandler g pc' # st)" for pc'
    using ml by (cases st) simp_all
  have ok': "list_all (frame_ok ((handlers s)(g' := Sighandler2))) st" for g'
    using ok(1) by (simp add: list_all_iff frame_ok_install)
  show ?thesis
  proof (cases "QuitCalled \<in> set (out s)")
    case True
    with assms have pc: "pc = 5" and c: "count_list (out s) QuitCalled = 1"
      by (simp_all add: sig_inv_def)
    with assms True show ?thesis
      by (simp add: sighandler_def print_def sig_inv_def)
  next
    case False
    with assms have pc: "pc \<le> 4"
      and rest: "list_all (\<lambda>a. case a of InSighandler g pc \<Rightarrow> pc \<le> 4 | _ \<Rightarrow> True) st"
      by (simp_all add: sig_inv_def)
    from False have c: "count_list (out s) QuitCalled = 0"
      by (simp add: count_list_0_iff)
    from pc consider "pc = 0" | "pc = 1" | "pc = 2" | "pc = 3" | "pc = 4" by linarith
    then show ?thesis
    proof cases
      case 1
      with False top ok ok' ml' nr rest show ?thesis
        by (simp add: sighandler_def sig_inv_def install_def goto_def)
    next
      case 2
      with False top ok ok' ml' nr rest show ?thesis
        by (simp add: sighandler_def sig_inv_def install_def goto_def)
    next
      case 3
      with False top ok ok' ml' nr rest show ?thesis
        by (simp add: sighandler_def sig_inv_def install_def goto_def)
    next
      case 4
      with False top ok ml' nr rest show ?thesis
        by (simp add: sighandler_def sig_inv_def print_def goto_def)
    next
      case 5
      with False top ok ml' nr rest c show ?thesis
        by (simp add: sighandler_def sig_inv_def print_def goto_def)
    qed
  qed
qed

lemma sig_inv_main_step:
  assumes "sig_inv s" and top: "stack s = InSigmain pc # st"
  shows "sig_inv (sigmain pc s)"
proof -
  have st: "st = []"
    using assms by (auto simp: sig_inv_def dest: main_last_top)
  with assms have "QuitCalled \<notin> set (out s)"
    by (auto simp: sig_inv_def split: if_splits)
  with assms st show ?thesis
    by (simp add: sigmain_def sig_inv_def install_def goto_def)
qed

lemma sig_inv_runs: "sig_inv s \<Longrightarrow> sig_inv (runs s)"
proof (cases "stack s")
  case Nil
  assume "sig_inv s"
  with Nil show ?thesis by (simp add: runs_def)
next
  case (Cons a st)
  assume i: "sig_inv s"
  show ?thesis
  proof (cases a)
    case (InSigmain pc)
    with i Cons sig_inv_main_step [of s pc st] show ?thesis by (simp add: runs_def)
  next
    case (InSighandler g pc)
    with i Cons sig_inv_sighandler [of s g pc st] show ?thesis by (simp add: runs_def)
  next
    case (InSighandler2 g)
    with i Cons sig_inv_sighandler2 [of s g st] show ?thesis by (simp add: runs_def)
  qed
qed

lemma sig_inv_occur: "sig_inv s \<Longrightarrow> sig_inv (occur x s)"
  by (cases x) (simp_all add: sig_inv_arrive sig_inv_runs)

lemma sig_inv_run: "sig_inv s \<Longrightarrow> sig_inv (run_signals os s)"
  unfolding run_signals_def by (induction os arbitrary: s) (simp_all add: sig_inv_occur)

lemma run_signals_append: "run_signals (os @ os') s = run_signals os' (run_signals os s)"
  by (simp add: run_signals_def)

lemma out_deliver: "out (deliver g s) = out s"
  by (simp add: deliver_def split: handler.splits)

lemma out_arrive: "out (arrive g s) = out s"
  by (simp add: arrive_def out_deliver)

lemma out_sighandler2: "out (sighandler2 g s) = out s @ [Ignoring g]"
  by (simp add: sighandler2_def sigreturn_def Let_def out_deliver print_def)

lemma stack_deliver: "set (stack s) \<subseteq> set (stack (deliver g s))"
  by (auto simp: deliver_def split: handler.splits)

lemma stack_arrive: "set (stack s) \<subseteq> set (stack (arrive g s))"
  using stack_deliver [of s g] by (auto simp: arrive_def)

lemma stack_sighandler2:
  "stack s = a # st \<Longrightarrow> set st \<subseteq> set (stack (sighandler2 g s))"
  using stack_deliver [of "(print (Ignoring g) s)\<lparr>stack := st, pend := (pend s)(g := False)\<rparr>" g]
  by (auto simp: sighandler2_def sigreturn_def Let_def print_def)

text \<open>Once \<^verbatim>\<open>quit\<close> has been called, a step of the signal thread adds at most one of
  the messages of \<^verbatim>\<open>sighandler2\<close> or the exit.\<close>

lemma occur_after_quit:
  assumes i: "sig_inv s" and q: "QuitCalled \<in> set (out s)"
  shows "out (occur x s) = out s \<or> (\<exists>e. is_note e \<and> out (occur x s) = out s @ [e])"
proof (cases x)
  case (Arrives g)
  then show ?thesis by (simp add: out_arrive)
next
  case Runs
  from i q have st: "started (stack s)" by (simp add: sig_inv_def)
  show ?thesis
  proof (cases "stack s")
    case Nil
    with Runs show ?thesis by (simp add: runs_def)
  next
    case (Cons a rest)
    show ?thesis
    proof (cases a)
      case (InSigmain pc)
      with st Cons show ?thesis by simp
    next
      case (InSighandler g pc)
      with st Cons have "pc = 5" by simp
      with Runs Cons InSighandler show ?thesis
        by (simp add: runs_def sighandler_def print_def is_note_def)
    next
      case (InSighandler2 g)
      with Runs Cons show ?thesis
        by (simp add: runs_def out_sighandler2 is_note_def)
    qed
  qed
qed

lemma run_after_quit:
  assumes "sig_inv s" and "QuitCalled \<in> set (out s)"
  shows "\<exists>rest. out (run_signals os s) = out s @ rest \<and> list_all is_note rest"
  using assms
proof (induction os arbitrary: s)
  case Nil
  show ?case by (simp add: run_signals_def)
next
  case (Cons x os)
  let ?t = "occur x s"
  have "\<exists>r. out ?t = out s @ r \<and> list_all is_note r"
    using occur_after_quit [OF Cons.prems, of x]
  proof
    assume "out ?t = out s"
    then show ?thesis by (intro exI [of _ "[]"]) simp
  next
    assume "\<exists>e. is_note e \<and> out ?t = out s @ [e]"
    then obtain e where "is_note e" "out ?t = out s @ [e]" by blast
    then show ?thesis by (intro exI [of _ "[e]"]) simp
  qed
  then obtain r where r: "out ?t = out s @ r" "list_all is_note r"
    by blast
  have "sig_inv ?t" using Cons.prems(1) by (rule sig_inv_occur)
  moreover have "QuitCalled \<in> set (out ?t)" using Cons.prems(2) r by simp
  ultimately obtain rest where "out (run_signals os ?t) = out ?t @ rest" "list_all is_note rest"
    using Cons.IH by blast
  with r show ?case
    by (intro exI [of _ "r @ rest"]) (simp add: run_signals_def)
qed

text \<open>While \<^verbatim>\<open>sighandler\<close> is running for a signal, that signal is blocked, and
  \<^verbatim>\<open>sighandler\<close> does not return: no step acknowledges the signal.\<close>

lemma occur_blocked:
  assumes i: "sig_inv s" and f: "InSighandler g pc \<in> set (stack s)"
  shows "(\<exists>pc'. InSighandler g pc' \<in> set (stack (occur x s))) \<and>
         (out (occur x s) = out s \<or> (\<exists>e. e \<noteq> Ignoring g \<and> out (occur x s) = out s @ [e]))"
proof (cases x)
  case (Arrives g')
  with f stack_arrive [of s g'] show ?thesis by (auto simp: out_arrive)
next
  case Runs
  show ?thesis
  proof (cases "alive s")
    case False
    with Runs f show ?thesis by (auto simp: runs_def)
  next
    case True
    from f obtain a rest where Cons: "stack s = a # rest" by (cases "stack s") auto
    show ?thesis
    proof (cases a)
      case (InSigmain n)
      with i Cons have "rest = []" by (auto simp: sig_inv_def dest: main_last_top)
      with f Cons InSigmain show ?thesis by simp
    next
      case (InSighandler g' n)
      have "\<exists>pc'. InSighandler g pc' \<in> set (stack (sighandler g' n s))"
        using f Cons InSighandler
        by (auto simp: sighandler_def goto_def install_def print_def)
      moreover have "out (sighandler g' n s) = out s \<or>
          (\<exists>e. e \<noteq> Ignoring g \<and> out (sighandler g' n s) = out s @ [e])"
        by (auto simp: sighandler_def goto_def install_def print_def)
      ultimately show ?thesis
        using Runs True Cons InSighandler by (simp add: runs_def)
    next
      case (InSighandler2 g')
      from i Cons InSighandler2 have "\<not> list_ex (handles g') rest"
        by (simp add: sig_inv_def)
      with f Cons InSighandler2 have ne: "g' \<noteq> g" and r: "InSighandler g pc \<in> set rest"
        by (auto simp: list_ex_iff)
      from r stack_sighandler2 [OF Cons, of g'] have "InSighandler g pc \<in> set (stack (sighandler2 g' s))"
        by blast
      with ne Runs True Cons InSighandler2 show ?thesis
        by (auto simp: runs_def out_sighandler2)
    qed
  qed
qed

lemma run_blocked:
  assumes "sig_inv s" and "InSighandler g pc \<in> set (stack s)"
  shows "\<exists>rest. out (run_signals os s) = out s @ rest \<and> Ignoring g \<notin> set rest"
  using assms
proof (induction os arbitrary: s pc)
  case Nil
  show ?case by (simp add: run_signals_def)
next
  case (Cons x os)
  let ?t = "occur x s"
  from occur_blocked [OF Cons.prems, of x]
  obtain pc' where f: "InSighandler g pc' \<in> set (stack ?t)"
    and o: "out ?t = out s \<or> (\<exists>e. e \<noteq> Ignoring g \<and> out ?t = out s @ [e])"
    by blast
  from o have "\<exists>r. out ?t = out s @ r \<and> Ignoring g \<notin> set r"
  proof
    assume "out ?t = out s"
    then show ?thesis by (intro exI [of _ "[]"]) simp
  next
    assume "\<exists>e. e \<noteq> Ignoring g \<and> out ?t = out s @ [e]"
    then obtain e where "e \<noteq> Ignoring g" "out ?t = out s @ [e]" by blast
    then show ?thesis by (intro exI [of _ "[e]"]) auto
  qed
  then obtain r where r: "out ?t = out s @ r" "Ignoring g \<notin> set r"
    by blast
  have "sig_inv ?t" using Cons.prems(1) by (rule sig_inv_occur)
  with f obtain rest where "out (run_signals os ?t) = out ?t @ rest" "Ignoring g \<notin> set rest"
    using Cons.IH by blast
  with r show ?case
    by (intro exI [of _ "r @ rest"]) (simp add: run_signals_def)
qed

text \<open>
  C8, amended. \<^verbatim>\<open>quit\<close> is called at most once in the life of a process. When
  \<^verbatim>\<open>sighandler\<close> calls it, the handlers of all three signals have been replaced by
  \<^verbatim>\<open>sighandler2\<close>, and from then on the signal thread only prints messages of
  \<^verbatim>\<open>sighandler2\<close> and exits: no later signal calls \<^verbatim>\<open>quit\<close> again. A repeat of the
  signal for which \<^verbatim>\<open>sighandler\<close> is running is blocked, which changes nothing but the
  set of pending signals, and it is never acknowledged, since \<^verbatim>\<open>sighandler\<close> does not
  return.
\<close>

theorem shutdown_once:
  "count_list (lifetime usbinit os) QuitCalled \<le> 1 \<and>
   (QuitCalled \<in> set (out (run_signals os sigthread)) \<longrightarrow>
      handlers (run_signals os sigthread) sg = Sighandler2 \<and>
      (\<exists>rest. out (run_signals (os @ os') sigthread) = out (run_signals os sigthread) @ rest \<and>
         list_all is_note rest)) \<and>
   (InSighandler sig pc \<in> set (stack (run_signals os sigthread)) \<longrightarrow>
      (alive (run_signals os sigthread) \<longrightarrow>
         arrive sig (run_signals os sigthread) =
           (run_signals os sigthread)\<lparr>pend := (pend (run_signals os sigthread))(sig := True)\<rparr>) \<and>
      (\<exists>rest. out (run_signals (os @ os') sigthread) = out (run_signals os sigthread) @ rest \<and>
         Ignoring sig \<notin> set rest))"
proof -
  let ?s = "run_signals os sigthread"
  have i: "sig_inv ?s" using sig_inv_start by (rule sig_inv_run)
  have c: "count_list (out ?s) QuitCalled \<le> 1"
    using i by (auto simp: sig_inv_def count_list_0_iff split: if_splits)
  then have a: "count_list (lifetime usbinit os) QuitCalled \<le> 1"
    by (simp add: lifetime_def)
  have b: "handlers ?s sg = Sighandler2 \<and>
      (\<exists>rest. out (run_signals (os @ os') sigthread) = out ?s @ rest \<and> list_all is_note rest)"
    if q: "QuitCalled \<in> set (out ?s)"
  proof -
    from i q have "started (stack ?s)" "list_all (frame_ok (handlers ?s)) (stack ?s)"
      by (simp_all add: sig_inv_def)
    then have "handlers ?s sg = Sighandler2" by (rule started_handlers)
    with run_after_quit [OF i q, of os'] show ?thesis
      by (simp add: run_signals_append)
  qed
  have d: "(alive ?s \<longrightarrow> arrive sig ?s = ?s\<lparr>pend := (pend ?s)(sig := True)\<rparr>) \<and>
      (\<exists>rest. out (run_signals (os @ os') sigthread) = out ?s @ rest \<and> Ignoring sig \<notin> set rest)"
    if f: "InSighandler sig pc \<in> set (stack ?s)"
  proof -
    from f have "blocked sig ?s"
      by (auto simp: blocked_def list_ex_iff intro!: bexI [of _ "InSighandler sig pc"])
    then have "alive ?s \<longrightarrow> arrive sig ?s = ?s\<lparr>pend := (pend ?s)(sig := True)\<rparr>"
      by (simp add: arrive_def)
    with run_blocked [OF i f, of os'] show ?thesis
      by (simp add: run_signals_append)
  qed
  from a b d show ?thesis by blast
qed

text \<open>
  C8, as stated, fails: a termination signal received after the first one is not
  always acknowledged with a message. A second \<^verbatim>\<open>SIGINT\<close> that arrives while
  \<^verbatim>\<open>sighandler\<close> runs for the first is blocked and never delivered: nothing is printed
  for it. And a \<^verbatim>\<open>SIGQUIT\<close> that arrives after the first of the three calls of
  \<^verbatim>\<open>signal\<close> in \<^verbatim>\<open>sighandler\<close>, when its own handler has not been replaced yet, runs
  \<^verbatim>\<open>sighandler\<close> itself: the shutdown is the one it performs, and the handler of the
  first signal never gets to its message.
\<close>

theorem later_signal_not_acknowledged:
  "lifetime 0 [Runs, Runs, Runs, Arrives SIGINT, Arrives SIGINT,
               Runs, Runs, Runs, Runs, Runs, Runs] =
     [Caught SIGINT, QuitCalled, Exit 0] \<and>
   lifetime 0 [Runs, Runs, Runs, Arrives SIGINT, Runs, Arrives SIGQUIT,
               Runs, Runs, Runs, Runs, Runs, Runs, Runs, Runs] =
     [Caught SIGQUIT, QuitCalled, Exit 0]"
  by code_simp

theorem shutdown_once_witness:
  "out (run_signals [Runs, Runs, Runs, Arrives SIGINT, Runs, Runs, Runs, Runs, Runs] sigthread) =
     [Caught SIGINT, QuitCalled] \<and>
   handlers (run_signals [Runs, Runs, Runs, Arrives SIGINT, Runs, Runs, Runs, Runs, Runs] sigthread)
     SIGTERM = Sighandler2 \<and>
   out (run_signals ([Runs, Runs, Runs, Arrives SIGINT, Runs, Runs, Runs, Runs, Runs] @
                     [Arrives SIGTERM, Arrives SIGINT, Runs, Runs]) sigthread) =
     [Caught SIGINT, QuitCalled, Ignoring SIGTERM, Exit 0] \<and>
   count_list (lifetime 0 ([Runs, Runs, Runs, Arrives SIGINT, Runs, Runs, Runs, Runs, Runs] @
                     [Arrives SIGTERM, Arrives SIGINT, Runs, Runs])) QuitCalled = 1 \<and>
   (\<exists>rest. out (run_signals ([Runs, Runs, Runs, Arrives SIGINT, Runs, Runs, Runs, Runs, Runs] @
                     [Arrives SIGTERM, Arrives SIGINT, Runs, Runs]) sigthread) =
      [Caught SIGINT, QuitCalled] @ rest \<and> Ignoring SIGINT \<notin> set rest) \<and>
   lifetime 1 [Arrives SIGINT] = [QuitCalled, Exit (- 1)]"
proof -
  let ?os = "[Runs, Runs, Runs, Arrives SIGINT, Runs, Runs, Runs, Runs, Runs]"
  let ?os' = "[Arrives SIGTERM, Arrives SIGINT, Runs, Runs]"
  have o: "out (run_signals ?os sigthread) = [Caught SIGINT, QuitCalled]"
    and f: "InSighandler SIGINT 5 \<in> set (stack (run_signals ?os sigthread))"
    and o': "out (run_signals (?os @ ?os') sigthread) =
       [Caught SIGINT, QuitCalled, Ignoring SIGTERM, Exit 0]"
    and l: "lifetime 1 [Arrives SIGINT] = [QuitCalled, Exit (- 1)]"
    by code_simp+
  from o have q: "QuitCalled \<in> set (out (run_signals ?os sigthread))" by simp
  note A = shutdown_once [where os = ?os and os' = ?os' and sg = SIGTERM and sig = SIGINT
      and pc = 5 and usbinit = 0]
  from A q have h: "handlers (run_signals ?os sigthread) SIGTERM = Sighandler2" by blast
  have c: "count_list (lifetime 0 (?os @ ?os')) QuitCalled = 1"
    using o' by (simp add: lifetime_def)
  from A f have "\<exists>rest. out (run_signals (?os @ ?os') sigthread) =
      out (run_signals ?os sigthread) @ rest \<and> Ignoring SIGINT \<notin> set rest"
    by blast
  then have r: "\<exists>rest. out (run_signals (?os @ ?os') sigthread) =
      [Caught SIGINT, QuitCalled] @ rest \<and> Ignoring SIGINT \<notin> set rest"
    unfolding o .
  from o h o' c r l show ?thesis by blast
qed

subsection \<open>Loops over slots\<close>

lemma for_each_append:
  "for_each f (xs @ ys) s =
     (fst (for_each f xs s) @ fst (for_each f ys (snd (for_each f xs s))),
      snd (for_each f ys (snd (for_each f xs s))))"
  by (induction xs arbitrary: s) (simp_all add: case_prod_beta)

lemma length_set_kb [simp]: "length (keyboard (set_kb i d s)) = length (keyboard s)"
  by (simp add: set_kb_def)

lemma nth_set_kb_other: "j \<noteq> i \<Longrightarrow> keyboard (set_kb i d s) ! j = keyboard s ! j"
  by (simp add: set_kb_def)

lemma nth_set_kb_same: "i < length (keyboard s) \<Longrightarrow> keyboard (set_kb i d s) ! i = d"
  by (simp add: set_kb_def)

lemma quit_device_events: "fst (quit_device got i s) = quit_block got s i"
  by (simp add: quit_device_def quit_block_def)

lemma quit_device_other:
  "j \<noteq> i \<Longrightarrow> keyboard (snd (quit_device got i s)) ! j = keyboard s ! j"
  by (simp add: quit_device_def nth_set_kb_other)

lemma quit_device_length [simp]:
  "length (keyboard (snd (quit_device got i s))) = length (keyboard s)"
  by (simp add: quit_device_def)

lemma quit_device_same:
  "i < length (keyboard s) \<Longrightarrow> \<not> connected (keyboard (snd (quit_device got i s)) ! i)"
  by (simp add: quit_device_def nth_set_kb_same closeusb_def)

lemma quit_loop_events:
  "distinct xs \<Longrightarrow>
   fst (for_each (quit_device got) xs s) = concat (map (quit_block got s) xs)"
proof (induction xs arbitrary: s)
  case Nil
  show ?case by simp
next
  case (Cons x xs)
  let ?s1 = "snd (quit_device got x s)"
  have same: "map (quit_block got ?s1) xs = map (quit_block got s) xs"
  proof (rule map_cong [OF refl])
    fix j assume "j \<in> set xs"
    with Cons.prems have "j \<noteq> x" by auto
    then show "quit_block got ?s1 j = quit_block got s j"
      by (simp add: quit_block_def quit_device_other)
  qed
  have "fst (for_each (quit_device got) (x # xs) s) =
          fst (quit_device got x s) @ fst (for_each (quit_device got) xs ?s1)"
    by (simp add: Let_def split: prod.splits)
  also have "\<dots> = quit_block got s x @ concat (map (quit_block got ?s1) xs)"
    using Cons by (simp add: quit_device_events)
  finally show ?case by (simp add: same)
qed

lemma quit_loop_length [simp]:
  "length (keyboard (snd (for_each (quit_device got) xs s))) = length (keyboard s)"
  by (induction xs arbitrary: s) (simp_all add: Let_def split: prod.splits, metis quit_device_length snd_conv)

lemma quit_loop_outside:
  "j \<notin> set xs \<Longrightarrow> keyboard (snd (for_each (quit_device got) xs s)) ! j = keyboard s ! j"
proof (induction xs arbitrary: s)
  case Nil
  show ?case by simp
next
  case (Cons x xs)
  then have "j \<noteq> x" and "j \<notin> set xs" by auto
  with Cons.IH [of "snd (quit_device got x s)"] show ?case
    by (simp add: Let_def quit_device_other split: prod.splits)
       (metis quit_device_other snd_conv)
qed

lemma quit_loop_disconnects:
  "j \<in> set xs \<Longrightarrow> distinct xs \<Longrightarrow> j < length (keyboard s) \<Longrightarrow>
   \<not> connected (keyboard (snd (for_each (quit_device got) xs s)) ! j)"
proof (induction xs arbitrary: s)
  case Nil
  then show ?case by simp
next
  case (Cons x xs)
  let ?s1 = "snd (quit_device got x s)"
  have step: "snd (for_each (quit_device got) (x # xs) s) = snd (for_each (quit_device got) xs ?s1)"
    by (simp add: Let_def split: prod.splits)
  show ?case
  proof (cases "j = x")
    case True
    with Cons.prems have "j \<notin> set xs" by simp
    then have "keyboard (snd (for_each (quit_device got) xs ?s1)) ! j = keyboard ?s1 ! j"
      by (rule quit_loop_outside)
    with True Cons.prems show ?thesis
      by (simp only: step) (simp add: quit_device_same)
  next
    case False
    with Cons.prems have "j \<in> set xs" "distinct xs" "j < length (keyboard ?s1)" by simp_all
    then show ?thesis
      by (simp only: step) (rule Cons.IH)
  qed
qed

lemma quit_events:
  "fst (quit got s) =
     [TimedLock Kblistmutex (got Kblistmutex)] @
     concat (map (quit_block got s) [1..<length (keyboard s)]) @
     [TimedLock (Kbmutex 0) (got (Kbmutex 0)), CloseUsb 0, UsbDeinit, Unlock Kblistmutex]"
  using quit_loop_events [of "[1..<length (keyboard s)]" got s]
  by (simp add: quit_def Let_def case_prod_beta)


lemma upt_split_at:
  assumes "a \<le> i" and "i < n"
  shows "[a..<n] = [a..<i] @ i # [Suc i..<n]"
proof -
  have "[a..<i + (n - i)] = [a..<i] @ [i..<i + (n - i)]"
    using assms(1) by (rule upt_add_eq_append)
  then have "[a..<n] = [a..<i] @ [i..<n]"
    using assms(2) by simp
  then show ?thesis
    using assms(2) by (simp add: upt_conv_Cons)
qed

subsection \<open>Shutdown: order of the calls, and the locks\<close>

lemma quit_block_index:
  "e \<in> set (concat (map (quit_block got s) xs)) \<Longrightarrow>
   \<exists>j \<in> set xs. e = TimedLock (Kbmutex j) (got (Kbmutex j)) \<or> e = InputClose j \<or>
                e = RevertUsb j \<or> e = CloseUsb j"
  by (auto simp: quit_block_def split: if_splits)

text \<open>
  C7. During shutdown every connected physical device (slot 1 and above) is dealt with
  before the root controller: for such a device \<open>i\<close> the calls \<^verbatim>\<open>inputclose\<close>,
  \<^verbatim>\<open>revertusb\<close>, \<^verbatim>\<open>closeusb\<close> are made once each, in this order and next to each other,
  and the root controller's \<^verbatim>\<open>closeusb\<close> and \<^verbatim>\<open>usbdeinit\<close> come only at the end, after
  the calls for all devices. Afterwards neither the device nor the root controller
  is connected.
\<close>

theorem quit_order:
  assumes "1 \<le> i" and "i < length (keyboard s)" and "connected (keyboard s ! i)"
  shows "(\<exists>a b. fst (quit got s) =
            a @ [InputClose i, RevertUsb i, CloseUsb i] @ b @
            [TimedLock (Kbmutex 0) (got (Kbmutex 0)), CloseUsb 0, UsbDeinit, Unlock Kblistmutex] \<and>
            InputClose i \<notin> set a \<union> set b \<and> RevertUsb i \<notin> set a \<union> set b \<and>
            CloseUsb i \<notin> set a \<union> set b \<and> CloseUsb 0 \<notin> set a \<union> set b \<and>
            UsbDeinit \<notin> set a \<union> set b) \<and>
         \<not> connected (keyboard (snd (quit got s)) ! i) \<and>
         \<not> connected (keyboard (snd (quit got s)) ! 0)"
proof -
  let ?n = "length (keyboard s)"
  let ?blk = "quit_block got s"
  let ?a = "[TimedLock Kblistmutex (got Kblistmutex)] @ concat (map ?blk [1..<i]) @
            [TimedLock (Kbmutex i) (got (Kbmutex i))]"
  let ?b = "concat (map ?blk [Suc i..<?n])"
  let ?tail = "[TimedLock (Kbmutex 0) (got (Kbmutex 0)), CloseUsb 0, UsbDeinit, Unlock Kblistmutex]"
  have split: "[1..<?n] = [1..<i] @ i # [Suc i..<?n]"
    using assms(1,2) by (rule upt_split_at)
  have blk: "?blk i = [TimedLock (Kbmutex i) (got (Kbmutex i)), InputClose i, RevertUsb i, CloseUsb i]"
    using assms(3) by (simp add: quit_block_def)
  have shape: "fst (quit got s) = ?a @ [InputClose i, RevertUsb i, CloseUsb i] @ ?b @ ?tail"
    by (simp only: quit_events split map_append list.map concat_append concat.simps blk)
       simp
  have pre: "e \<in> set (concat (map ?blk [1..<i])) \<Longrightarrow>
             e \<notin> {InputClose i, RevertUsb i, CloseUsb i, CloseUsb 0, UsbDeinit}" for e
    by (drule quit_block_index) auto
  have post: "e \<in> set ?b \<Longrightarrow>
             e \<notin> {InputClose i, RevertUsb i, CloseUsb i, CloseUsb 0, UsbDeinit}" for e
    by (drule quit_block_index) auto
  have notin: "InputClose i \<notin> set ?a \<union> set ?b \<and> RevertUsb i \<notin> set ?a \<union> set ?b \<and>
            CloseUsb i \<notin> set ?a \<union> set ?b \<and> CloseUsb 0 \<notin> set ?a \<union> set ?b \<and>
            UsbDeinit \<notin> set ?a \<union> set ?b"
    using pre post by auto
  have "i \<in> set [1..<?n]" using assms(1,2) by simp
  then have ci: "\<not> connected (keyboard (snd (for_each (quit_device got) [1..<?n] s)) ! i)"
    using assms(2) by (intro quit_loop_disconnects) simp_all
  have fin: "snd (quit got s) =
      set_kb 0 (closeusb (keyboard (snd (for_each (quit_device got) [1..<?n] s)) ! 0))
        (snd (for_each (quit_device got) [1..<?n] s))"
    by (simp add: quit_def Let_def case_prod_beta)
  have c1: "\<not> connected (keyboard (snd (quit got s)) ! i)"
    using ci assms(1) by (simp add: fin nth_set_kb_other)
  have "0 < length (keyboard (snd (for_each (quit_device got) [1..<?n] s)))"
    using assms(1,2) by auto
  then have c0: "\<not> connected (keyboard (snd (quit got s)) ! 0)"
    by (simp only: fin nth_set_kb_same) (simp add: closeusb_def)
  from shape notin c1 c0 show ?thesis by blast
qed


theorem quit_order_witness:
  "fst (quit (\<lambda>_. True) \<lparr>keyboard = [ex_root, ex_empty, ex_kb], v120 = False\<rparr>) =
     [TimedLock Kblistmutex True, TimedLock (Kbmutex 2) True] @
     [InputClose 2, RevertUsb 2, CloseUsb 2] @ [] @
     [TimedLock (Kbmutex 0) True, CloseUsb 0, UsbDeinit, Unlock Kblistmutex] \<and>
   \<not> connected (keyboard (snd (quit (\<lambda>_. True)
         \<lparr>keyboard = [ex_root, ex_empty, ex_kb], v120 = False\<rparr>)) ! 2)"
proof -
  let ?s = "\<lparr>keyboard = [ex_root, ex_empty, ex_kb], v120 = False\<rparr>"
  have "\<not> connected (keyboard (snd (quit (\<lambda>_. True) ?s)) ! 2)"
    using quit_order [of 2 ?s "\<lambda>_. True"] by (simp add: ex_kb_def)
  moreover have "fst (quit (\<lambda>_. True) ?s) =
     [TimedLock Kblistmutex True, TimedLock (Kbmutex 2) True] @
     [InputClose 2, RevertUsb 2, CloseUsb 2] @ [] @
     [TimedLock (Kbmutex 0) True, CloseUsb 0, UsbDeinit, Unlock Kblistmutex]"
    by code_simp
  ultimately show ?thesis by simp
qed

lemma lock_step_quit_block:
  "fold (lock_step m) (quit_block got s j) h =
     (if m = Kbmutex j \<and> connected (keyboard s ! j) then False else h)"
  by (cases m) (auto simp: quit_block_def lock_step_def)

lemma lock_step_quit_blocks:
  "fold (lock_step m) (concat (map (quit_block got s) xs)) h \<Longrightarrow> h"
  by (induction xs arbitrary: h) (auto simp: lock_step_quit_block split: if_splits)

lemma lock_step_kept:
  "Unlock Kblistmutex \<notin> set es \<Longrightarrow> h \<Longrightarrow> fold (lock_step Kblistmutex) es h"
  by (induction es arbitrary: h) (auto simp: lock_step_def)

text \<open>
  C4. When \<^verbatim>\<open>quit\<close> returns the thread holds no mutex. The locks it took are
  \<^verbatim>\<open>kblistmutex\<close>, the mutex of every connected slot from 1 up and the mutex of slot 0,
  each when its timed lock succeeded, and no other. \<^verbatim>\<open>kblistmutex\<close> is taken first, held
  to the end and released by the last call, \<^verbatim>\<open>pthread_mutex_unlock\<close>. A device mutex is
  never unlocked by \<^verbatim>\<open>quit\<close> itself: each is held from its timed lock on and released
  by the call of \<^verbatim>\<open>closeusb\<close> for its slot, which follows.
\<close>

theorem quit_locks:
  "\<not> held m (fst (quit got s)) \<and>
   Lock m \<notin> set (fst (quit got s)) \<and>
   (TimedLock m True \<in> set (fst (quit got s)) \<longleftrightarrow>
      got m \<and>
      (case m of
         Kblistmutex \<Rightarrow> True
       | Kbmutex i \<Rightarrow> i = 0 \<or> i < length (keyboard s) \<and> connected (keyboard s ! i))) \<and>
   (\<exists>a. fst (quit got s) = TimedLock Kblistmutex (got Kblistmutex) # a @ [Unlock Kblistmutex] \<and>
      Unlock Kblistmutex \<notin> set a \<and> (got Kblistmutex \<longrightarrow> held Kblistmutex (TimedLock Kblistmutex True # a))) \<and>
   Unlock (Kbmutex i) \<notin> set (fst (quit got s)) \<and>
   (TimedLock (Kbmutex i) g \<in> set (fst (quit got s)) \<longrightarrow>
      (\<exists>a b. fst (quit got s) = a @ TimedLock (Kbmutex i) g # b \<and> CloseUsb i \<in> set b \<and>
         (g \<longrightarrow> held (Kbmutex i) (a @ [TimedLock (Kbmutex i) g]))))"
proof -
  let ?n = "length (keyboard s)"
  let ?B = "concat (map (quit_block got s) [1..<?n])"
  let ?tail = "[TimedLock (Kbmutex 0) (got (Kbmutex 0)), CloseUsb 0, UsbDeinit, Unlock Kblistmutex]"
  note ev = quit_events [of got s]
  have blocks: "e \<in> set ?B \<Longrightarrow> \<exists>j. 1 \<le> j \<and> j < ?n \<and> connected (keyboard s ! j) \<and>
      (e = TimedLock (Kbmutex j) (got (Kbmutex j)) \<or> e = InputClose j \<or> e = RevertUsb j \<or>
       e = CloseUsb j)" for e
    by (auto simp: quit_block_def split: if_splits)
  have c1: "\<not> held m (fst (quit got s))"
  proof (cases m)
    case Kblistmutex
    then show ?thesis by (simp add: ev held_def lock_step_def)
  next
    case (Kbmutex j)
    have "\<not> fold (lock_step (Kbmutex j)) ?B False"
      using lock_step_quit_blocks [of "Kbmutex j" got s "[1..<?n]" False] by blast
    then show ?thesis
      by (cases "j = 0") (simp_all add: Kbmutex ev held_def lock_step_def)
  qed
  have c2: "Lock m \<notin> set (fst (quit got s))"
  proof -
    have "Lock m \<notin> set ?B" using blocks [of "Lock m"] by blast
    then show ?thesis by (simp add: ev)
  qed
  have c3: "TimedLock m True \<in> set (fst (quit got s)) \<longleftrightarrow>
      got m \<and>
      (case m of
         Kblistmutex \<Rightarrow> True
       | Kbmutex i \<Rightarrow> i = 0 \<or> i < length (keyboard s) \<and> connected (keyboard s ! i))"
  proof (cases m)
    case Kblistmutex
    have "TimedLock Kblistmutex True \<notin> set ?B" using blocks [of "TimedLock Kblistmutex True"] by blast
    then show ?thesis by (auto simp: Kblistmutex ev)
  next
    case (Kbmutex j)
    show ?thesis
    proof (cases "j = 0")
      case True
      have "TimedLock (Kbmutex 0) True \<notin> set ?B" using blocks [of "TimedLock (Kbmutex 0) True"] by auto
      then show ?thesis by (auto simp: Kbmutex True ev)
    next
      case False
      have "TimedLock (Kbmutex j) True \<in> set ?B \<longleftrightarrow>
            got (Kbmutex j) \<and> j < ?n \<and> connected (keyboard s ! j)"
        using False by (auto simp: quit_block_def split: if_splits)
      with False show ?thesis by (auto simp: Kbmutex ev)
    qed
  qed
  have c4: "\<exists>a. fst (quit got s) = TimedLock Kblistmutex (got Kblistmutex) # a @ [Unlock Kblistmutex] \<and>
      Unlock Kblistmutex \<notin> set a \<and> (got Kblistmutex \<longrightarrow> held Kblistmutex (TimedLock Kblistmutex True # a))"
  proof -
    let ?a = "?B @ [TimedLock (Kbmutex 0) (got (Kbmutex 0)), CloseUsb 0, UsbDeinit]"
    have "Unlock Kblistmutex \<notin> set ?B" using blocks [of "Unlock Kblistmutex"] by blast
    then have u: "Unlock Kblistmutex \<notin> set ?a" by simp
    have "held Kblistmutex (TimedLock Kblistmutex True # ?a)"
      unfolding held_def using lock_step_kept [OF u, of True]
      by (simp add: lock_step_def)
    with u show ?thesis
      by (intro exI [of _ ?a]) (simp add: ev)
  qed
  have c5: "Unlock (Kbmutex i) \<notin> set (fst (quit got s))"
  proof -
    have "Unlock (Kbmutex i) \<notin> set ?B" using blocks [of "Unlock (Kbmutex i)"] by blast
    then show ?thesis by (simp add: ev)
  qed
  have c6: "\<exists>a b. fst (quit got s) = a @ TimedLock (Kbmutex i) g # b \<and> CloseUsb i \<in> set b \<and>
         (g \<longrightarrow> held (Kbmutex i) (a @ [TimedLock (Kbmutex i) g]))"
    if t: "TimedLock (Kbmutex i) g \<in> set (fst (quit got s))"
  proof (cases "i = 0")
    case True
    have "TimedLock (Kbmutex 0) g \<notin> set ?B" using blocks [of "TimedLock (Kbmutex 0) g"] by auto
    with t True have g: "g = got (Kbmutex 0)" by (simp add: ev)
    show ?thesis
      apply (rule exI [of _ "TimedLock Kblistmutex (got Kblistmutex) # ?B"])
      apply (rule exI [of _ "[CloseUsb 0, UsbDeinit, Unlock Kblistmutex]"])
      by (simp add: ev True g held_def lock_step_def)
  next
    case False
    with t have "TimedLock (Kbmutex i) g \<in> set ?B" by (simp add: ev)
    from blocks [OF this] have r: "1 \<le> i" "i < ?n" and conn: "connected (keyboard s ! i)"
      and g: "g = got (Kbmutex i)"
      by auto
    from r have split: "[1..<?n] = [1..<i] @ i # [Suc i..<?n]" by (rule upt_split_at)
    let ?A = "concat (map (quit_block got s) [1..<i])"
    let ?C = "concat (map (quit_block got s) [Suc i..<?n])"
    have q: "quit_block got s i = [TimedLock (Kbmutex i) g, InputClose i, RevertUsb i, CloseUsb i]"
      by (simp add: quit_block_def conn g)
    have "concat (map (quit_block got s) ([1..<i] @ i # [Suc i..<?n])) =
          ?A @ [TimedLock (Kbmutex i) g, InputClose i, RevertUsb i, CloseUsb i] @ ?C"
      by (simp add: q)
    then have B: "?B = ?A @ [TimedLock (Kbmutex i) g, InputClose i, RevertUsb i, CloseUsb i] @ ?C"
      unfolding split [symmetric] .
    show ?thesis
      unfolding ev B
      apply (rule exI [of _ "TimedLock Kblistmutex (got Kblistmutex) # ?A"])
      apply (rule exI [of _ "[InputClose i, RevertUsb i, CloseUsb i] @ ?C @ ?tail"])
      by (simp add: held_def lock_step_def)
  qed
  from c1 c2 c3 c4 c5 c6 show ?thesis by blast
qed

theorem quit_locks_witness:
  "TimedLock (Kbmutex 1) True \<in> set (fst (quit (\<lambda>_. True) \<lparr>keyboard = [ex_root, ex_kb, ex_empty], v120 = False\<rparr>)) \<and>
   \<not> held (Kbmutex 1) (fst (quit (\<lambda>_. True) \<lparr>keyboard = [ex_root, ex_kb, ex_empty], v120 = False\<rparr>)) \<and>
   \<not> held (Kbmutex 0) (fst (quit (\<lambda>_. True) \<lparr>keyboard = [ex_root, ex_kb, ex_empty], v120 = False\<rparr>)) \<and>
   \<not> held Kblistmutex (fst (quit (\<lambda>_. True) \<lparr>keyboard = [ex_root, ex_kb, ex_empty], v120 = False\<rparr>)) \<and>
   (\<exists>a b. fst (quit (\<lambda>_. True) \<lparr>keyboard = [ex_root, ex_kb, ex_empty], v120 = False\<rparr>) =
       a @ TimedLock (Kbmutex 1) True # b \<and> CloseUsb 1 \<in> set b \<and>
       held (Kbmutex 1) (a @ [TimedLock (Kbmutex 1) True]))"
proof -
  let ?s = "\<lparr>keyboard = [ex_root, ex_kb, ex_empty], v120 = False\<rparr>"
  have t: "TimedLock (Kbmutex 1) True \<in> set (fst (quit (\<lambda>_. True) ?s))"
    by code_simp
  from quit_locks [where got = "\<lambda>_. True" and s = ?s and i = 1 and g = True and m = "Kbmutex 1"]
    quit_locks [where got = "\<lambda>_. True" and s = ?s and i = 1 and g = True and m = "Kbmutex 0"]
    quit_locks [where got = "\<lambda>_. True" and s = ?s and i = 1 and g = True and m = Kblistmutex]
    t show ?thesis
    by simp
qed


subsection \<open>What the pieces of a sweep guarantee\<close>

lemma applied_append [simp]: "applied k (es @ es') = applied k es @ applied k es'"
  by (simp add: applied_def)

lemma applied_Nil [simp]: "applied k [] = []"
  by (simp add: applied_def)

lemma applied_Cons:
  "applied k (e # es) =
     (case e of ReadCmd j ls \<Rightarrow> (if j = k then ls else []) | _ \<Rightarrow> []) @ applied k es"
  by (simp add: applied_def)

lemma slot_later_refl [simp]: "slot_later d d"
  by (simp add: slot_later_def)

lemma slot_later_trans: "slot_later a b \<Longrightarrow> slot_later b c \<Longrightarrow> slot_later a c"
  by (auto simp: slot_later_def)

lemma fast_slot_iff:
  "fast_slot s \<longleftrightarrow>
     (\<exists>k < length (keyboard s). infifo (keyboard s ! k) \<noteq> 0 \<and> fwversion (keyboard s ! k) \<ge> 288)"
  unfolding fast_slot_def list_ex_iff by (simp add: Bex_def in_set_conv_nth) blast

lemma fifo_rel_fast_slot:
  assumes "fifo_rel s es s'" and "fast_slot s'"
  shows "fast_slot s"
proof -
  from assms(2) obtain k where k: "k < length (keyboard s')"
    "infifo (keyboard s' ! k) \<noteq> 0" "fwversion (keyboard s' ! k) \<ge> 288"
    by (auto simp: fast_slot_iff)
  from assms(1) k(1) have len: "k < length (keyboard s)"
    and "slot_later (keyboard s ! k) (keyboard s' ! k)"
    by (simp_all add: fifo_rel_def)
  with k have "infifo (keyboard s ! k) \<noteq> 0 \<and> fwversion (keyboard s ! k) \<ge> 288"
    by (simp add: slot_later_def)
  with len show ?thesis by (auto simp: fast_slot_iff)
qed

lemma fifo_rel_refl: "fifo_rel s [] s"
  by (simp add: fifo_rel_def)

lemma fifo_rel_trans:
  assumes a: "fifo_rel s es s'" and b: "fifo_rel s' es' s''"
  shows "fifo_rel s (es @ es') s''"
proof -
  have len: "length (keyboard s') = length (keyboard s)"
    "length (keyboard s'') = length (keyboard s')"
    using a b by (simp_all add: fifo_rel_def)
  have v1: "v120 s \<longrightarrow> v120 s''"
    using a b by (simp add: fifo_rel_def)
  have v2: "v120 s'' \<longrightarrow> v120 s \<or> fast_slot s"
    using a b fifo_rel_fast_slot [OF a] by (auto simp: fifo_rel_def)
  have slots: "slot_later (keyboard s ! k) (keyboard s'' ! k) \<and>
        (infifo (keyboard s'' ! k) \<noteq> 0 \<longrightarrow>
           applied k (es @ es') @ pending (keyboard s'' ! k) = pending (keyboard s ! k)) \<and>
        (pending (keyboard s ! k) = [] \<longrightarrow>
           applied k (es @ es') = [] \<and> pending (keyboard s'' ! k) = [])"
    if k: "k < length (keyboard s)" for k
  proof -
    from a k have a1: "slot_later (keyboard s ! k) (keyboard s' ! k)"
      and a2: "infifo (keyboard s' ! k) \<noteq> 0 \<longrightarrow>
           applied k es @ pending (keyboard s' ! k) = pending (keyboard s ! k)"
      and a3: "pending (keyboard s ! k) = [] \<longrightarrow>
           applied k es = [] \<and> pending (keyboard s' ! k) = []"
      by (simp_all add: fifo_rel_def)
    from b k len have b1: "slot_later (keyboard s' ! k) (keyboard s'' ! k)"
      and b2: "infifo (keyboard s'' ! k) \<noteq> 0 \<longrightarrow>
           applied k es' @ pending (keyboard s'' ! k) = pending (keyboard s' ! k)"
      and b3: "pending (keyboard s' ! k) = [] \<longrightarrow>
           applied k es' = [] \<and> pending (keyboard s'' ! k) = []"
      by (simp_all add: fifo_rel_def)
    have c1: "slot_later (keyboard s ! k) (keyboard s'' ! k)"
      using a1 b1 by (rule slot_later_trans)
    have open': "infifo (keyboard s'' ! k) \<noteq> 0 \<Longrightarrow> infifo (keyboard s' ! k) \<noteq> 0"
      using b1 by (simp add: slot_later_def)
    have c2: "infifo (keyboard s'' ! k) \<noteq> 0 \<longrightarrow>
           applied k (es @ es') @ pending (keyboard s'' ! k) = pending (keyboard s ! k)"
      using a2 b2 open' by auto
    have c3: "pending (keyboard s ! k) = [] \<longrightarrow>
           applied k (es @ es') = [] \<and> pending (keyboard s'' ! k) = []"
      using a3 b3 by simp
    from c1 c2 c3 show ?thesis by blast
  qed
  show ?thesis
    unfolding fifo_rel_def using len v1 v2 slots by simp
qed

lemma v120_set_kb [simp]: "v120 (set_kb i d s) = v120 s"
  by (simp add: set_kb_def)

lemma fifo_rel_set_kb:
  assumes j: "j < length (keyboard s)"
    and later: "slot_later (keyboard s ! j) d"
    and cons: "infifo d \<noteq> 0 \<longrightarrow> applied j es @ pending d = pending (keyboard s ! j)"
    and empty: "pending (keyboard s ! j) = [] \<longrightarrow> applied j es = [] \<and> pending d = []"
    and others: "\<And>k. k \<noteq> j \<Longrightarrow> applied k es = []"
  shows "fifo_rel s es (set_kb j d s)"
proof -
  have "slot_later (keyboard s ! k) (keyboard (set_kb j d s) ! k) \<and>
        (infifo (keyboard (set_kb j d s) ! k) \<noteq> 0 \<longrightarrow>
           applied k es @ pending (keyboard (set_kb j d s) ! k) = pending (keyboard s ! k)) \<and>
        (pending (keyboard s ! k) = [] \<longrightarrow>
           applied k es = [] \<and> pending (keyboard (set_kb j d s) ! k) = [])"
    if "k < length (keyboard s)" for k
  proof (cases "k = j")
    case True
    with j later cons empty show ?thesis by (simp add: nth_set_kb_same)
  next
    case False
    with others [of k] show ?thesis by (simp add: nth_set_kb_other)
  qed
  then show ?thesis
    unfolding fifo_rel_def by simp
qed

lemma fifo_rel_v120:
  assumes "fast_slot s"
  shows "fifo_rel s [] (s\<lparr>v120 := True\<rparr>)"
  using assms by (simp add: fifo_rel_def)

lemma read_fifo_rel:
  assumes "j < length (keyboard s)"
  shows "fifo_rel s (fst (read_fifo env j s)) (snd (read_fifo env j s))"
proof (cases "pending (keyboard s ! j) = []")
  case True
  then have r: "read_fifo env j s = ([ReadLines j], set_kb j ((keyboard s ! j)\<lparr>pending := []\<rparr>) s)"
    by (simp add: read_fifo_def readlines_def)
  show ?thesis
    unfolding r fst_conv snd_conv
    by (rule fifo_rel_set_kb [OF assms]) (simp_all add: slot_later_def applied_Cons True)
next
  case False
  then have r: "read_fifo env j s =
      ([ReadLines j, ReadCmd j (pending (keyboard s ! j))],
       set_kb j (readcmd (queued_by env j) (pending (keyboard s ! j))
                  ((keyboard s ! j)\<lparr>pending := []\<rparr>)) s)"
    by (simp add: read_fifo_def readlines_def)
  show ?thesis
    unfolding r fst_conv snd_conv
    by (rule fifo_rel_set_kb [OF assms])
       (simp_all add: slot_later_def applied_Cons readcmd_def False)
qed

lemma read_fifo_slot:
  assumes "j < length (keyboard s)"
  shows "infifo (keyboard (snd (read_fifo env j s)) ! j) = infifo (keyboard s ! j) \<and>
         fwversion (keyboard (snd (read_fifo env j s)) ! j) = fwversion (keyboard s ! j) \<and>
         pending (keyboard (snd (read_fifo env j s)) ! j) = [] \<and>
         applied j (fst (read_fifo env j s)) = pending (keyboard s ! j)"
  using assms
  by (simp add: read_fifo_def readlines_def readcmd_def nth_set_kb_same applied_Cons)

lemma fifo_body_rel:
  assumes j: "j < length (keyboard s)"
  shows "fifo_rel s (fst (fifo_body env j s)) (snd (fifo_body env j s))"
proof (cases "infifo (keyboard s ! j) \<noteq> 0")
  case False
  then show ?thesis by (simp add: fifo_body_def fifo_rel_refl)
next
  case True
  let ?es = "fst (read_fifo env j s)"
  let ?s1 = "snd (read_fifo env j s)"
  have r: "fifo_rel s ?es ?s1" using j by (rule read_fifo_rel)
  show ?thesis
  proof (cases "fwversion (keyboard ?s1 ! j) \<ge> 288")
    case False
    with True r show ?thesis
      by (simp add: fifo_body_def case_prod_beta)
  next
    case fast: True
    have len: "j < length (keyboard ?s1)"
      using r j by (simp add: fifo_rel_def)
    have "infifo (keyboard ?s1 ! j) \<noteq> 0"
      using read_fifo_slot [OF j] True by simp
    with fast len have "fast_slot ?s1"
      by (auto simp: fast_slot_iff)
    then have "fifo_rel ?s1 [] (?s1\<lparr>v120 := True\<rparr>)"
      by (rule fifo_rel_v120)
    with r have "fifo_rel s (?es @ []) (?s1\<lparr>v120 := True\<rparr>)"
      by (rule fifo_rel_trans)
    with True fast show ?thesis
      by (simp add: fifo_body_def case_prod_beta)
  qed
qed

lemma for_each_Cons_fst:
  "fst (for_each f (x # xs) s) = fst (f x s) @ fst (for_each f xs (snd (f x s)))"
  by (simp add: case_prod_beta)

lemma for_each_Cons_snd:
  "snd (for_each f (x # xs) s) = snd (for_each f xs (snd (f x s)))"
  by (simp add: case_prod_beta)

lemma fifo_loop_rel:
  "\<forall>x \<in> set xs. x < length (keyboard s) \<Longrightarrow>
   fifo_rel s (fst (for_each (fifo_body env) xs s)) (snd (for_each (fifo_body env) xs s))"
proof (induction xs arbitrary: s)
  case Nil
  show ?case by (simp add: fifo_rel_refl)
next
  case (Cons x xs)
  let ?s1 = "snd (fifo_body env x s)"
  have a: "fifo_rel s (fst (fifo_body env x s)) ?s1"
    using Cons.prems by (simp add: fifo_body_rel)
  then have "length (keyboard ?s1) = length (keyboard s)"
    by (simp add: fifo_rel_def)
  with Cons.prems have "\<forall>y \<in> set xs. y < length (keyboard ?s1)" by simp
  then have b: "fifo_rel ?s1 (fst (for_each (fifo_body env) xs ?s1))
                  (snd (for_each (fifo_body env) xs ?s1))"
    by (rule Cons.IH)
  show ?case
    unfolding for_each_Cons_fst for_each_Cons_snd
    using a b by (rule fifo_rel_trans)
qed

lemma process_fifos_rel:
  "fifo_rel s (fst (process_fifos env s)) (snd (process_fifos env s))"
  unfolding process_fifos_def by (rule fifo_loop_rel) simp

lemma pass_ran_append [simp]: "pass_ran (es @ es') \<longleftrightarrow> pass_ran es \<or> pass_ran es'"
  by (simp add: pass_ran_def)

lemma pass_ran_Nil [simp]: "\<not> pass_ran []"
  by (simp add: pass_ran_def)

lemma pass_ran_Cons: "pass_ran (e # es) \<longleftrightarrow> is_indicator e \<or> pass_ran es"
  by (simp add: pass_ran_def)

lemma fifo_body_at:
  assumes j: "j < length (keyboard s)" and op: "infifo (keyboard s ! j) \<noteq> 0"
  shows "pending (keyboard (snd (fifo_body env j s)) ! j) = [] \<and>
         fwversion (keyboard (snd (fifo_body env j s)) ! j) = fwversion (keyboard s ! j) \<and>
         (fwversion (keyboard s ! j) \<ge> 288 \<longrightarrow> v120 (snd (fifo_body env j s)))"
  using op read_fifo_slot [OF j, of env]
  by (simp add: fifo_body_def case_prod_beta)

lemma fifo_loop_full:
  assumes "\<forall>x \<in> set xs. x < length (keyboard s)" and "k \<in> set xs"
    and "infifo (keyboard (snd (for_each (fifo_body env) xs s)) ! k) \<noteq> 0"
  shows "pending (keyboard (snd (for_each (fifo_body env) xs s)) ! k) = [] \<and>
         (fwversion (keyboard (snd (for_each (fifo_body env) xs s)) ! k) \<ge> 288 \<longrightarrow>
            v120 (snd (for_each (fifo_body env) xs s)))"
  using assms
proof (induction xs arbitrary: s)
  case Nil
  then show ?case by simp
next
  case (Cons x xs)
  let ?s1 = "snd (fifo_body env x s)"
  let ?s2 = "snd (for_each (fifo_body env) xs ?s1)"
  have x: "x < length (keyboard s)" using Cons.prems(1) by simp
  have a: "fifo_rel s (fst (fifo_body env x s)) ?s1"
    using x by (rule fifo_body_rel)
  then have len1: "length (keyboard ?s1) = length (keyboard s)"
    by (simp add: fifo_rel_def)
  with Cons.prems(1) have rest: "\<forall>y \<in> set xs. y < length (keyboard ?s1)" by simp
  then have b: "fifo_rel ?s1 (fst (for_each (fifo_body env) xs ?s1)) ?s2"
    by (rule fifo_loop_rel)
  have op2: "infifo (keyboard ?s2 ! k) \<noteq> 0"
    using Cons.prems(3) unfolding for_each_Cons_snd .
  show ?case
  proof (cases "k \<in> set xs")
    case True
    from Cons.IH [OF rest True op2] show ?thesis
      unfolding for_each_Cons_snd .
  next
    case False
    with Cons.prems(2) have kx: "k = x" by simp
    have k1: "k < length (keyboard ?s1)" using kx x len1 by simp
    from b k1 have l2: "slot_later (keyboard ?s1 ! k) (keyboard ?s2 ! k)"
      and keep: "pending (keyboard ?s1 ! k) = [] \<longrightarrow> pending (keyboard ?s2 ! k) = []"
      and stick: "v120 ?s1 \<longrightarrow> v120 ?s2"
      by (simp_all add: fifo_rel_def)
    from a x kx have l1: "slot_later (keyboard s ! k) (keyboard ?s1 ! k)"
      by (simp add: fifo_rel_def)
    from l2 op2 have op1: "infifo (keyboard ?s1 ! k) \<noteq> 0"
      and fw2: "fwversion (keyboard ?s2 ! k) = fwversion (keyboard ?s1 ! k)"
      by (simp_all add: slot_later_def)
    from l1 op1 have op0: "infifo (keyboard s ! x) \<noteq> 0"
      using kx by (simp add: slot_later_def)
    from fifo_body_at [OF x op0, of env] kx
    have "pending (keyboard ?s1 ! k) = []"
      and "fwversion (keyboard ?s1 ! k) = fwversion (keyboard s ! k)"
      and "fwversion (keyboard s ! k) \<ge> 288 \<longrightarrow> v120 ?s1"
      by simp_all
    with keep stick fw2 show ?thesis
      unfolding for_each_Cons_snd by simp
  qed
qed

lemma process_fifos_full:
  assumes "k < length (keyboard s)"
    and "infifo (keyboard (snd (process_fifos env s)) ! k) \<noteq> 0"
  shows "pending (keyboard (snd (process_fifos env s)) ! k) = [] \<and>
         (fwversion (keyboard (snd (process_fifos env s)) ! k) \<ge> 288 \<longrightarrow>
            v120 (snd (process_fifos env s)))"
  using assms unfolding process_fifos_def
  by (intro fifo_loop_full) simp_all

lemma step_rel_refl: "step_rel s [] s"
  by (simp add: step_rel_def fifo_rel_refl)

lemma step_rel_trans:
  assumes a: "step_rel s es s'" and b: "step_rel s' es' s''"
  shows "step_rel s (es @ es') s''"
proof -
  have fa: "fifo_rel s es s'" and fb: "fifo_rel s' es' s''"
    using a b by (simp_all add: step_rel_def)
  have f: "fifo_rel s (es @ es') s''"
    using fa fb by (rule fifo_rel_trans)
  have len: "length (keyboard s') = length (keyboard s)"
    using fa by (simp add: fifo_rel_def)
  have c1: "pass_ran (es @ es') \<and> fast_slot s'' \<longrightarrow> v120 s''"
  proof (intro impI, elim conjE)
    assume p: "pass_ran (es @ es')" and fs: "fast_slot s''"
    show "v120 s''"
    proof (cases "pass_ran es'")
      case True
      with b fs show ?thesis by (simp add: step_rel_def)
    next
      case False
      with p have "pass_ran es" by simp
      moreover have "fast_slot s'" using fb fs by (rule fifo_rel_fast_slot)
      ultimately have "v120 s'" using a by (simp add: step_rel_def)
      with fb show ?thesis by (simp add: fifo_rel_def)
    qed
  qed
  have c2: "pending (keyboard s'' ! k) = []"
    if p: "pass_ran (es @ es')" and k: "k < length (keyboard s)"
      and op: "infifo (keyboard s'' ! k) \<noteq> 0" for k
  proof (cases "pass_ran es'")
    case True
    with b k len op show ?thesis by (simp add: step_rel_def)
  next
    case False
    with p have pe: "pass_ran es" by simp
    from fb k len have l: "slot_later (keyboard s' ! k) (keyboard s'' ! k)"
      and keep: "pending (keyboard s' ! k) = [] \<longrightarrow> pending (keyboard s'' ! k) = []"
      by (simp_all add: fifo_rel_def)
    from l op have "infifo (keyboard s' ! k) \<noteq> 0" by (simp add: slot_later_def)
    with a pe k have "pending (keyboard s' ! k) = []" by (simp add: step_rel_def)
    with keep show ?thesis by simp
  qed
  have c3: "\<not> pass_ran (es @ es') \<longrightarrow> v120 s'' = v120 s \<and> (\<forall>k. applied k (es @ es') = [])"
    using a b by (simp add: step_rel_def)
  show ?thesis
    unfolding step_rel_def using f c1 c2 c3 by blast
qed

lemma step_rel_events:
  assumes "\<not> pass_ran es" and "\<And>k. applied k es = []"
  shows "step_rel s es s"
  using assms by (simp add: step_rel_def fifo_rel_def)

lemma step_rel_quiet:
  assumes j: "j < length (keyboard s)"
    and later: "slot_later (keyboard s ! j) d"
    and pend: "pending d = pending (keyboard s ! j) \<or> (infifo d = 0 \<and> pending d = [])"
    and np: "\<not> pass_ran es" and na: "\<And>k. applied k es = []"
  shows "step_rel s es (set_kb j d s)"
proof -
  have "fifo_rel s es (set_kb j d s)"
    using j later pend na by (intro fifo_rel_set_kb) auto
  with np na show ?thesis by (simp add: step_rel_def)
qed

lemma else_branch_idle:
  "queuecount (keyboard s ! i) \<noteq> 0 \<Longrightarrow> else_branch env i s = ([Unlock (Kbmutex i)], s)"
  by (simp add: else_branch_def)

lemma else_branch_pass:
  "queuecount (keyboard s ! i) = 0 \<Longrightarrow>
   else_branch env i s =
     (fst (process_fifos env s) @ [UpdateIndicators i, Unlock (Kbmutex i)],
      set_kb i (updateindicators (led_changed env i) (keyboard (snd (process_fifos env s)) ! i))
        (snd (process_fifos env s)))"
  by (simp add: else_branch_def case_prod_beta)

lemma updateindicators_fields:
  "connected (updateindicators c d) = connected d \<and> infifo (updateindicators c d) = infifo d \<and>
   fwversion (updateindicators c d) = fwversion d \<and> pending (updateindicators c d) = pending d"
  by (simp add: updateindicators_def)

lemma set_kb_updateindicators:
  "k < length (keyboard s) \<Longrightarrow>
   infifo (keyboard (set_kb i (updateindicators c (keyboard s ! i)) s) ! k) = infifo (keyboard s ! k) \<and>
   fwversion (keyboard (set_kb i (updateindicators c (keyboard s ! i)) s) ! k) = fwversion (keyboard s ! k) \<and>
   pending (keyboard (set_kb i (updateindicators c (keyboard s ! i)) s) ! k) = pending (keyboard s ! k)"
  by (cases "k = i") (simp_all add: nth_set_kb_same nth_set_kb_other updateindicators_fields)

lemma else_branch_rel:
  assumes i: "i < length (keyboard s)"
  shows "step_rel s (fst (else_branch env i s)) (snd (else_branch env i s))"
proof (cases "queuecount (keyboard s ! i) = 0")
  case False
  show ?thesis
    unfolding else_branch_idle [OF False] fst_conv snd_conv
    by (rule step_rel_events) (simp_all add: pass_ran_Cons is_indicator_def applied_Cons)
next
  case True
  let ?pf = "process_fifos env s"
  let ?s1 = "snd ?pf"
  let ?d = "updateindicators (led_changed env i) (keyboard ?s1 ! i)"
  let ?s2 = "set_kb i ?d ?s1"
  let ?tl = "[UpdateIndicators i, Unlock (Kbmutex i)]"
  have f1: "fifo_rel s (fst ?pf) ?s1" by (rule process_fifos_rel)
  then have len1: "length (keyboard ?s1) = length (keyboard s)"
    by (simp add: fifo_rel_def)
  have i1: "i < length (keyboard ?s1)" using i len1 by simp
  have f2: "fifo_rel ?s1 ?tl ?s2"
    by (rule fifo_rel_set_kb [OF i1])
       (simp_all add: slot_later_def updateindicators_fields applied_Cons)
  have f: "fifo_rel s (fst ?pf @ ?tl) ?s2"
    using f1 f2 by (rule fifo_rel_trans)
  have full: "pending (keyboard ?s2 ! k) = [] \<and> (fwversion (keyboard ?s2 ! k) \<ge> 288 \<longrightarrow> v120 ?s2)"
    if k: "k < length (keyboard s)" and op: "infifo (keyboard ?s2 ! k) \<noteq> 0" for k
  proof -
    have k1: "k < length (keyboard ?s1)" using k len1 by simp
    from set_kb_updateindicators [OF k1, of i "led_changed env i"] op
    have same: "infifo (keyboard ?s1 ! k) \<noteq> 0"
      "fwversion (keyboard ?s2 ! k) = fwversion (keyboard ?s1 ! k)"
      "pending (keyboard ?s2 ! k) = pending (keyboard ?s1 ! k)"
      by simp_all
    from process_fifos_full [OF k same(1)] same show ?thesis by simp
  qed
  have c1: "fast_slot ?s2 \<longrightarrow> v120 ?s2"
  proof
    assume "fast_slot ?s2"
    then obtain k where "k < length (keyboard ?s2)" "infifo (keyboard ?s2 ! k) \<noteq> 0"
      "fwversion (keyboard ?s2 ! k) \<ge> 288"
      by (auto simp: fast_slot_iff)
    with full [of k] len1 show "v120 ?s2" by simp
  qed
  have p: "pass_ran (fst ?pf @ ?tl)"
    by (simp add: pass_ran_Cons is_indicator_def)
  show ?thesis
    unfolding else_branch_pass [OF True] fst_conv snd_conv step_rel_def
    using f c1 p full by blast
qed

lemma usbdequeue_fields:
  "connected (snd (usbdequeue ok d)) = connected d \<and> infifo (snd (usbdequeue ok d)) = infifo d \<and>
   fwversion (snd (usbdequeue ok d)) = fwversion d \<and> pending (snd (usbdequeue ok d)) = pending d"
  by (simp add: usbdequeue_def)

lemma device_step_skip:
  "\<not> connected (keyboard s ! i) \<Longrightarrow> device_step env i s = ([], s)"
  by (simp add: device_step_def)

lemma device_step_close:
  assumes "connected (keyboard s ! i)"
    and "fst (usbdequeue (send_ok env i) (keyboard s ! i)) = 0"
    and "\<not> reset_ok env i"
  shows "device_step env i s =
     ([Lock (Kbmutex i), UsbDequeue i 0, UsbTryReset i (- 1), CloseUsb i],
      set_kb i (closeusb (snd (usbdequeue (send_ok env i) (keyboard s ! i))))
        (set_kb i (snd (usbdequeue (send_ok env i) (keyboard s ! i))) s))"
  using assms by (simp add: device_step_def case_prod_beta usb_tryreset_def Let_def)

lemma device_step_reset:
  assumes "connected (keyboard s ! i)"
    and "fst (usbdequeue (send_ok env i) (keyboard s ! i)) = 0"
    and "reset_ok env i"
  shows "device_step env i s =
     ([Lock (Kbmutex i), UsbDequeue i 0, UsbTryReset i 0] @
        fst (else_branch env i (set_kb i (snd (usbdequeue (send_ok env i) (keyboard s ! i))) s)),
      snd (else_branch env i (set_kb i (snd (usbdequeue (send_ok env i) (keyboard s ! i))) s)))"
  using assms by (simp add: device_step_def case_prod_beta usb_tryreset_def Let_def)

lemma device_step_sent:
  assumes "connected (keyboard s ! i)"
    and "fst (usbdequeue (send_ok env i) (keyboard s ! i)) \<noteq> 0"
  shows "device_step env i s =
     ([Lock (Kbmutex i), UsbDequeue i (fst (usbdequeue (send_ok env i) (keyboard s ! i)))] @
        fst (else_branch env i (set_kb i (snd (usbdequeue (send_ok env i) (keyboard s ! i))) s)),
      snd (else_branch env i (set_kb i (snd (usbdequeue (send_ok env i) (keyboard s ! i))) s)))"
  using assms by (simp add: device_step_def case_prod_beta Let_def)

lemma device_step_rel:
  assumes i: "i < length (keyboard s)"
  shows "step_rel s (fst (device_step env i s)) (snd (device_step env i s))"
proof (cases "connected (keyboard s ! i)")
  case False
  then show ?thesis by (simp add: device_step_skip step_rel_refl)
next
  case conn: True
  let ?r = "fst (usbdequeue (send_ok env i) (keyboard s ! i))"
  let ?d = "snd (usbdequeue (send_ok env i) (keyboard s ! i))"
  let ?s1 = "set_kb i ?d s"
  have i1: "i < length (keyboard ?s1)" using i by simp
  have dq: "step_rel s pre ?s1" if "\<not> pass_ran pre" and "\<And>k. applied k pre = []" for pre
    using i that
    by (intro step_rel_quiet) (simp_all add: slot_later_def usbdequeue_fields)
  have eb: "step_rel ?s1 (fst (else_branch env i ?s1)) (snd (else_branch env i ?s1))"
    using i1 by (rule else_branch_rel)
  show ?thesis
  proof (cases "?r = 0")
    case sent: False
    have "step_rel s [Lock (Kbmutex i), UsbDequeue i ?r] ?s1"
      by (rule dq) (simp_all add: pass_ran_Cons is_indicator_def applied_Cons)
    from step_rel_trans [OF this eb] show ?thesis
      unfolding device_step_sent [OF conn sent] fst_conv snd_conv .
  next
    case failed: True
    show ?thesis
    proof (cases "reset_ok env i")
      case True
      have "step_rel s [Lock (Kbmutex i), UsbDequeue i 0, UsbTryReset i 0] ?s1"
        by (rule dq) (simp_all add: pass_ran_Cons is_indicator_def applied_Cons)
      from step_rel_trans [OF this eb] show ?thesis
        unfolding device_step_reset [OF conn failed True] fst_conv snd_conv .
    next
      case False
      have a: "step_rel s [Lock (Kbmutex i), UsbDequeue i 0] ?s1"
        by (rule dq) (simp_all add: pass_ran_Cons is_indicator_def applied_Cons)
      have b: "step_rel ?s1 [UsbTryReset i (- 1), CloseUsb i] (set_kb i (closeusb ?d) ?s1)"
        using i1
        by (intro step_rel_quiet)
           (simp_all add: slot_later_def closeusb_def pass_ran_Cons is_indicator_def applied_Cons)
      from step_rel_trans [OF a b] show ?thesis
        unfolding device_step_close [OF conn failed False] fst_conv snd_conv by simp
    qed
  qed
qed

lemma device_loop_rel:
  "\<forall>x \<in> set xs. x < length (keyboard s) \<Longrightarrow>
   step_rel s (fst (for_each (device_step env) xs s)) (snd (for_each (device_step env) xs s))"
proof (induction xs arbitrary: s)
  case Nil
  show ?case by (simp add: step_rel_refl)
next
  case (Cons x xs)
  let ?s1 = "snd (device_step env x s)"
  have a: "step_rel s (fst (device_step env x s)) ?s1"
    using Cons.prems by (simp add: device_step_rel)
  then have "length (keyboard ?s1) = length (keyboard s)"
    by (simp add: step_rel_def fifo_rel_def)
  with Cons.prems have "\<forall>y \<in> set xs. y < length (keyboard ?s1)" by simp
  then have b: "step_rel ?s1 (fst (for_each (device_step env) xs ?s1))
                  (snd (for_each (device_step env) xs ?s1))"
    by (rule Cons.IH)
  show ?case
    unfolding for_each_Cons_fst for_each_Cons_snd
    using a b by (rule step_rel_trans)
qed

subsection \<open>The sweep as a whole\<close>

lemma sweep_events:
  "fst (sweep env s) =
     [Lock Kblistmutex] @ fst (root_fifo env s) @
     fst (for_each (device_step env) [0..<length (keyboard (snd (root_fifo env s)))]
            (snd (root_fifo env s))) @
     [Unlock Kblistmutex]"
  by (simp add: sweep_def case_prod_beta)

lemma sweep_state:
  "snd (sweep env s) =
     snd (for_each (device_step env) [0..<length (keyboard (snd (root_fifo env s)))]
            (snd (root_fifo env s)))"
  by (simp add: sweep_def case_prod_beta)

lemma root_fifo_rel:
  assumes "keyboard s \<noteq> []"
  shows "fifo_rel s (fst (root_fifo env s)) (snd (root_fifo env s))"
  using assms by (simp add: root_fifo_def fifo_rel_refl read_fifo_rel)

lemma root_fifo_quiet:
  "\<not> pass_ran (fst (root_fifo env s)) \<and> v120 (snd (root_fifo env s)) = v120 s \<and>
   (0 < k \<longrightarrow> applied k (fst (root_fifo env s)) = [])"
  by (simp add: root_fifo_def read_fifo_def readlines_def pass_ran_Cons is_indicator_def
      applied_Cons)

lemma root_fifo_reads:
  assumes "keyboard s \<noteq> []" and "infifo (keyboard s ! 0) \<noteq> 0"
  shows "applied 0 (fst (root_fifo env s)) = pending (keyboard s ! 0) \<and>
         pending (keyboard (snd (root_fifo env s)) ! 0) = []"
  using assms read_fifo_slot [of 0 s env] by (simp add: root_fifo_def)

lemma sweep_rel:
  assumes ne: "keyboard s \<noteq> []"
  shows "fifo_rel s (fst (root_fifo env s) @
            fst (for_each (device_step env) [0..<length (keyboard (snd (root_fifo env s)))]
                   (snd (root_fifo env s))))
           (snd (sweep env s))"
    and "step_rel (snd (root_fifo env s))
           (fst (for_each (device_step env) [0..<length (keyboard (snd (root_fifo env s)))]
                   (snd (root_fifo env s))))
           (snd (sweep env s))"
proof -
  let ?s0 = "snd (root_fifo env s)"
  let ?loop = "for_each (device_step env) [0..<length (keyboard ?s0)] ?s0"
  have a: "fifo_rel s (fst (root_fifo env s)) ?s0"
    using ne by (rule root_fifo_rel)
  have b: "step_rel ?s0 (fst ?loop) (snd ?loop)"
    by (rule device_loop_rel) simp
  then show "step_rel ?s0 (fst ?loop) (snd (sweep env s))"
    by (simp only: sweep_state)
  from b have "fifo_rel ?s0 (fst ?loop) (snd ?loop)"
    by (simp add: step_rel_def)
  with a have "fifo_rel s (fst (root_fifo env s) @ fst ?loop) (snd ?loop)"
    by (rule fifo_rel_trans)
  then show "fifo_rel s (fst (root_fifo env s) @ fst ?loop) (snd (sweep env s))"
    by (simp only: sweep_state)
qed

lemma applied_sweep:
  "applied k (fst (sweep env s)) =
     applied k (fst (root_fifo env s) @
        fst (for_each (device_step env) [0..<length (keyboard (snd (root_fifo env s)))]
               (snd (root_fifo env s))))"
  by (simp add: sweep_events applied_Cons)

lemma pass_ran_sweep:
  "pass_ran (fst (sweep env s)) \<longleftrightarrow>
     pass_ran (fst (for_each (device_step env) [0..<length (keyboard (snd (root_fifo env s)))]
                 (snd (root_fifo env s))))"
  using root_fifo_quiet [of env s]
  by (simp add: sweep_events pass_ran_Cons is_indicator_def)

subsection \<open>The sweep: queue drain\<close>

lemma for_each_events:
  "e \<in> set (fst (for_each f xs s)) \<Longrightarrow> \<exists>x \<in> set xs. \<exists>t. e \<in> set (fst (f x t))"
proof (induction xs arbitrary: s)
  case Nil
  then show ?case by simp
next
  case (Cons x xs)
  then show ?case
    unfolding for_each_Cons_fst by (fastforce simp: set_append)
qed

lemma read_fifo_about: "e \<in> set (fst (read_fifo env j s)) \<Longrightarrow> about e = None"
  by (auto simp: read_fifo_def readlines_def split: if_splits)

lemma fifo_body_about: "e \<in> set (fst (fifo_body env j s)) \<Longrightarrow> about e = None"
  by (auto simp: fifo_body_def case_prod_beta read_fifo_about split: if_splits)

lemma process_fifos_about: "e \<in> set (fst (process_fifos env s)) \<Longrightarrow> about e = None"
  unfolding process_fifos_def by (drule for_each_events) (auto simp: fifo_body_about)

lemma root_fifo_about: "e \<in> set (fst (root_fifo env s)) \<Longrightarrow> about e = None"
  by (auto simp: root_fifo_def read_fifo_about split: if_splits)

lemma else_branch_events:
  "e \<in> set (fst (else_branch env i s)) \<Longrightarrow>
   about e = None \<or> e = UpdateIndicators i \<or> e = Unlock (Kbmutex i)"
  by (cases "queuecount (keyboard s ! i) = 0")
     (auto simp: else_branch_idle else_branch_pass process_fifos_about)

lemma device_step_about:
  "e \<in> set (fst (device_step env j s)) \<Longrightarrow> about e = None \<or> about e = Some j"
proof (cases "connected (keyboard s ! j)")
  case False
  assume "e \<in> set (fst (device_step env j s))"
  with False show ?thesis by (simp add: device_step_skip)
next
  case conn: True
  assume e: "e \<in> set (fst (device_step env j s))"
  let ?r = "fst (usbdequeue (send_ok env j) (keyboard s ! j))"
  show ?thesis
  proof (cases "?r = 0")
    case False
    from e show ?thesis
      unfolding device_step_sent [OF conn False] fst_conv
      by (auto dest: else_branch_events)
  next
    case failed: True
    show ?thesis
    proof (cases "reset_ok env j")
      case True
      from e show ?thesis
        unfolding device_step_reset [OF conn failed True] fst_conv
        by (auto dest: else_branch_events)
    next
      case False
      from e show ?thesis
        unfolding device_step_close [OF conn failed False] fst_conv by auto
    qed
  qed
qed

lemma device_loop_about:
  "e \<in> set (fst (for_each (device_step env) xs s)) \<Longrightarrow>
   about e = None \<or> (\<exists>x \<in> set xs. about e = Some x)"
  by (drule for_each_events) (auto dest: device_step_about)

lemma lock_step_neutral:
  "\<forall>e \<in> set es. about e \<noteq> Some i \<Longrightarrow> fold (lock_step (Kbmutex i)) es h = h"
  by (induction es arbitrary: h) (auto simp: lock_step_def)

lemma else_branch_unlocks:
  "fold (lock_step (Kbmutex i)) (fst (else_branch env i s)) h = False \<and>
   CloseUsb i \<notin> set (fst (else_branch env i s)) \<and>
   Unlock (Kbmutex i) \<in> set (fst (else_branch env i s))"
proof (cases "queuecount (keyboard s ! i) = 0")
  case False
  then show ?thesis by (simp add: else_branch_idle lock_step_def)
next
  case True
  have n: "\<forall>e \<in> set (fst (process_fifos env s)). about e \<noteq> Some i"
    by (auto dest: process_fifos_about)
  then have "CloseUsb i \<notin> set (fst (process_fifos env s))" by fastforce
  with lock_step_neutral [OF n] show ?thesis
    by (simp add: else_branch_pass [OF True] lock_step_def)
qed

lemma else_branch_quiet:
  "e \<in> set (fst (else_branch env i s)) \<Longrightarrow>
   \<not> is_dequeue k e \<and> e \<noteq> UsbTryReset k r \<and> e \<noteq> CloseUsb k"
  by (drule else_branch_events) (cases e; auto simp: is_dequeue_def)

text \<open>What the step of slot \<open>i\<close> leaves behind, whatever branch it takes.\<close>

lemma device_step_own:
  assumes i: "i < length (keyboard s)"
  shows "length (filter (is_dequeue i) (fst (device_step env i s))) \<le> 1 \<and>
         (UsbTryReset i r \<in> set (fst (device_step env i s)) \<and> r \<noteq> 0 \<longrightarrow>
            UsbDequeue i 0 \<in> set (fst (device_step env i s)) \<and>
            CloseUsb i \<in> set (fst (device_step env i s)) \<and>
            \<not> connected (keyboard (snd (device_step env i s)) ! i)) \<and>
         (fold (lock_step (Kbmutex i)) (fst (device_step env i s)) h \<longleftrightarrow>
            \<not> connected (keyboard s ! i) \<and> h) \<and>
         (CloseUsb i \<in> set (fst (device_step env i s)) \<longrightarrow>
            Unlock (Kbmutex i) \<notin> set (fst (device_step env i s)) \<and>
            Lock (Kbmutex i) \<in> set (fst (device_step env i s)))"
proof (cases "connected (keyboard s ! i)")
  case False
  then show ?thesis by (simp add: device_step_skip)
next
  case conn: True
  let ?r = "fst (usbdequeue (send_ok env i) (keyboard s ! i))"
  let ?s1 = "set_kb i (snd (usbdequeue (send_ok env i) (keyboard s ! i))) s"
  let ?eb = "fst (else_branch env i ?s1)"
  have q: "filter (is_dequeue i) ?eb = []" "UsbTryReset i r \<notin> set ?eb" "CloseUsb i \<notin> set ?eb"
    using else_branch_quiet [of _ env i ?s1 i r] by (auto simp: filter_empty_conv)
  have u: "fold (lock_step (Kbmutex i)) ?eb h = False" for h
    using else_branch_unlocks [of i env ?s1 h] by simp
  show ?thesis
  proof (cases "?r = 0")
    case False
    show ?thesis
      unfolding device_step_sent [OF conn False] fst_conv snd_conv
      using q u False conn by (simp add: is_dequeue_def lock_step_def)
  next
    case failed: True
    show ?thesis
    proof (cases "reset_ok env i")
      case True
      show ?thesis
        unfolding device_step_reset [OF conn failed True] fst_conv snd_conv
        using q u conn by (simp add: is_dequeue_def lock_step_def)
    next
      case False
      show ?thesis
        unfolding device_step_close [OF conn failed False] fst_conv snd_conv
        using i conn by (simp add: is_dequeue_def lock_step_def nth_set_kb_same closeusb_def)
    qed
  qed
qed

lemma neutral_events:
  assumes "\<forall>e \<in> set es. about e \<noteq> Some i"
  shows "filter (is_dequeue i) es = [] \<and> UsbDequeue i r \<notin> set es \<and> UsbTryReset i r \<notin> set es \<and>
         CloseUsb i \<notin> set es \<and> Lock (Kbmutex i) \<notin> set es \<and> Unlock (Kbmutex i) \<notin> set es"
proof -
  have "\<not> is_dequeue i e" if "e \<in> set es" for e
    using assms that by (cases e) (auto simp: is_dequeue_def)
  then have "filter (is_dequeue i) es = []" by (simp add: filter_empty_conv)
  moreover have "UsbDequeue i r \<notin> set es" "UsbTryReset i r \<notin> set es" "CloseUsb i \<notin> set es"
    "Lock (Kbmutex i) \<notin> set es" "Unlock (Kbmutex i) \<notin> set es"
    using assms by fastforce+
  ultimately show ?thesis by simp
qed

lemma device_loop_neutral:
  assumes "i \<notin> set xs"
  shows "\<forall>e \<in> set (fst (for_each (device_step env) xs s)). about e \<noteq> Some i"
  using assms by (auto dest: device_loop_about)

lemma device_loop_length:
  "\<forall>x \<in> set xs. x < length (keyboard s) \<Longrightarrow>
   length (keyboard (snd (for_each (device_step env) xs s))) = length (keyboard s)"
  using device_loop_rel [of xs s env] by (simp add: step_rel_def fifo_rel_def)

lemma device_loop_own:
  assumes d: "distinct xs" and b: "\<forall>x \<in> set xs. x < length (keyboard s)"
  shows "length (filter (is_dequeue i) (fst (for_each (device_step env) xs s))) \<le> 1 \<and>
         (UsbTryReset i r \<in> set (fst (for_each (device_step env) xs s)) \<and> r \<noteq> 0 \<longrightarrow>
            UsbDequeue i 0 \<in> set (fst (for_each (device_step env) xs s)) \<and>
            CloseUsb i \<in> set (fst (for_each (device_step env) xs s)) \<and>
            \<not> connected (keyboard (snd (for_each (device_step env) xs s)) ! i)) \<and>
         \<not> fold (lock_step (Kbmutex i)) (fst (for_each (device_step env) xs s)) False \<and>
         (CloseUsb i \<in> set (fst (for_each (device_step env) xs s)) \<longrightarrow>
            Unlock (Kbmutex i) \<notin> set (fst (for_each (device_step env) xs s)) \<and>
            Lock (Kbmutex i) \<in> set (fst (for_each (device_step env) xs s)))"
proof (cases "i \<in> set xs")
  case False
  let ?E = "fst (for_each (device_step env) xs s)"
  have n: "\<forall>e \<in> set ?E. about e \<noteq> Some i"
    using False by (rule device_loop_neutral)
  from neutral_events [OF n] lock_step_neutral [OF n, of False] show ?thesis
    by simp
next
  case True
  then obtain as bs where xs: "xs = as @ i # bs"
    by (auto dest: split_list)
  with d have ia: "i \<notin> set as" and ib: "i \<notin> set bs" by auto
  let ?sa = "snd (for_each (device_step env) as s)"
  let ?Ea = "fst (for_each (device_step env) as s)"
  let ?ei = "fst (device_step env i ?sa)"
  let ?si = "snd (device_step env i ?sa)"
  let ?Eb = "fst (for_each (device_step env) bs ?si)"
  let ?sb = "snd (for_each (device_step env) bs ?si)"
  have E: "fst (for_each (device_step env) xs s) = ?Ea @ ?ei @ ?Eb"
    and S: "snd (for_each (device_step env) xs s) = ?sb"
    by (simp_all add: xs for_each_append case_prod_beta)
  have ba: "\<forall>x \<in> set as. x < length (keyboard s)" using b xs by simp
  then have la: "length (keyboard ?sa) = length (keyboard s)"
    by (rule device_loop_length)
  have i_a: "i < length (keyboard ?sa)" using b xs la by simp
  have li: "length (keyboard ?si) = length (keyboard ?sa)"
    using device_step_rel [OF i_a, of env] by (simp add: step_rel_def fifo_rel_def)
  have bb: "\<forall>x \<in> set bs. x < length (keyboard ?si)" using b xs la li by simp
  have "step_rel ?si ?Eb ?sb" using bb by (rule device_loop_rel)
  then have later: "connected (keyboard ?sb ! i) \<longrightarrow> connected (keyboard ?si ! i)"
    using i_a li by (simp add: step_rel_def fifo_rel_def slot_later_def)
  have na: "\<forall>e \<in> set ?Ea. about e \<noteq> Some i" using ia by (rule device_loop_neutral)
  have nb: "\<forall>e \<in> set ?Eb. about e \<noteq> Some i" using ib by (rule device_loop_neutral)
  note A = neutral_events [OF na] and B = neutral_events [OF nb]
  note own = device_step_own [OF i_a, of env r False]
  have c1: "length (filter (is_dequeue i) (?Ea @ ?ei @ ?Eb)) \<le> 1"
    using A B own by simp
  have c2: "UsbTryReset i r \<in> set (?Ea @ ?ei @ ?Eb) \<and> r \<noteq> 0 \<longrightarrow>
            UsbDequeue i 0 \<in> set (?Ea @ ?ei @ ?Eb) \<and> CloseUsb i \<in> set (?Ea @ ?ei @ ?Eb) \<and>
            \<not> connected (keyboard ?sb ! i)"
    using A B own later by auto
  have c3: "\<not> fold (lock_step (Kbmutex i)) (?Ea @ ?ei @ ?Eb) False"
    using own lock_step_neutral [OF na, of False]
      lock_step_neutral [OF nb, of "fold (lock_step (Kbmutex i)) ?ei False"]
    by simp
  have c4: "CloseUsb i \<in> set (?Ea @ ?ei @ ?Eb) \<longrightarrow>
            Unlock (Kbmutex i) \<notin> set (?Ea @ ?ei @ ?Eb) \<and> Lock (Kbmutex i) \<in> set (?Ea @ ?ei @ ?Eb)"
    using A B own by auto
  from c1 c2 c3 c4 show ?thesis
    unfolding E S by blast
qed

lemma sweep_shape:
  "\<exists>body. fst (sweep env s) = Lock Kblistmutex # body @ [Unlock Kblistmutex] \<and>
     Lock Kblistmutex \<notin> set body \<and> Unlock Kblistmutex \<notin> set body \<and>
     length (filter (is_dequeue i) body) \<le> 1 \<and>
     (UsbTryReset i r \<in> set body \<and> r \<noteq> 0 \<longrightarrow>
        UsbDequeue i 0 \<in> set body \<and> CloseUsb i \<in> set body \<and>
        \<not> connected (keyboard (snd (sweep env s)) ! i)) \<and>
     \<not> fold (lock_step (Kbmutex i)) body False \<and>
     (CloseUsb i \<in> set body \<longrightarrow> Unlock (Kbmutex i) \<notin> set body \<and> Lock (Kbmutex i) \<in> set body)"
proof -
  let ?s0 = "snd (root_fifo env s)"
  let ?e0 = "fst (root_fifo env s)"
  let ?xs = "[0..<length (keyboard ?s0)]"
  let ?E = "fst (for_each (device_step env) ?xs ?s0)"
  have n0: "\<forall>e \<in> set ?e0. about e \<noteq> Some i"
    by (auto dest: root_fifo_about)
  note Z = neutral_events [OF n0]
  have own: "length (filter (is_dequeue i) ?E) \<le> 1 \<and>
         (UsbTryReset i r \<in> set ?E \<and> r \<noteq> 0 \<longrightarrow>
            UsbDequeue i 0 \<in> set ?E \<and> CloseUsb i \<in> set ?E \<and>
            \<not> connected (keyboard (snd (for_each (device_step env) ?xs ?s0)) ! i)) \<and>
         \<not> fold (lock_step (Kbmutex i)) ?E False \<and>
         (CloseUsb i \<in> set ?E \<longrightarrow> Unlock (Kbmutex i) \<notin> set ?E \<and> Lock (Kbmutex i) \<in> set ?E)"
    by (rule device_loop_own) simp_all
  have k0: "Lock Kblistmutex \<notin> set ?e0 \<and> Unlock Kblistmutex \<notin> set ?e0"
    by (auto simp: root_fifo_def read_fifo_def readlines_def split: if_splits)
  have k1: "Lock Kblistmutex \<notin> set ?E \<and> Unlock Kblistmutex \<notin> set ?E"
  proof -
    have "e \<noteq> Lock Kblistmutex \<and> e \<noteq> Unlock Kblistmutex"
      if "e \<in> set (fst (device_step env x t))" for e x t
    proof (cases "connected (keyboard t ! x)")
      case False
      with that show ?thesis by (simp add: device_step_skip)
    next
      case True
      have eb: "e' \<noteq> Lock Kblistmutex \<and> e' \<noteq> Unlock Kblistmutex"
        if "e' \<in> set (fst (else_branch env x t'))" for e' t'
        using that
        by (cases "queuecount (keyboard t' ! x) = 0")
           (auto simp: else_branch_idle else_branch_pass process_fifos_def
              fifo_body_def read_fifo_def readlines_def case_prod_beta
              dest!: for_each_events split: if_splits)
      from that eb show ?thesis
        by (auto simp: device_step_def case_prod_beta Let_def split: if_splits)
    qed
    then show ?thesis by (auto dest!: for_each_events)
  qed
  have body: "fst (sweep env s) = Lock Kblistmutex # (?e0 @ ?E) @ [Unlock Kblistmutex]"
    by (simp add: sweep_events)
  have f: "\<not> fold (lock_step (Kbmutex i)) (?e0 @ ?E) False"
    using own lock_step_neutral [OF n0, of False] by simp
  show ?thesis
    apply (rule exI [of _ "?e0 @ ?E"])
    using body k0 k1 own Z f by (simp add: sweep_state)
qed

lemma waits_refl: "waits i s s"
  by (simp add: waits_def)

lemma waits_trans: "waits i s s' \<Longrightarrow> waits i s' s'' \<Longrightarrow> waits i s s''"
  by (auto simp: waits_def)

lemma waits_set_kb:
  assumes "connected d = connected (keyboard s ! j)"
    and "queuecount (keyboard s ! j) \<le> queuecount d \<or> i \<noteq> j"
  shows "waits i s (set_kb j d s)"
proof (cases "i = j")
  case False
  then show ?thesis by (simp add: waits_def nth_set_kb_other)
next
  case True
  show ?thesis
  proof (cases "j < length (keyboard s)")
    case True
    with \<open>i = j\<close> assms show ?thesis by (simp add: waits_def nth_set_kb_same)
  next
    case False
    then have "keyboard (set_kb j d s) = keyboard s" by (simp add: set_kb_def list_update_beyond)
    then show ?thesis by (simp add: waits_def)
  qed
qed

lemma read_fifo_waits: "waits i s (snd (read_fifo env j s))"
  by (auto simp: read_fifo_def readlines_def readcmd_def intro!: waits_set_kb)

lemma waits_v120: "waits i s (s\<lparr>v120 := True\<rparr>)"
  by (simp add: waits_def)

lemma fifo_body_waits: "waits i s (snd (fifo_body env j s))"
  using read_fifo_waits [of i s env j]
  by (auto simp: fifo_body_def case_prod_beta waits_refl intro: waits_trans waits_v120)

lemma for_each_waits:
  assumes "\<And>x t. x \<in> set xs \<Longrightarrow> waits i t (snd (f x t))"
  shows "waits i s (snd (for_each f xs s))"
  using assms
proof (induction xs arbitrary: s)
  case Nil
  show ?case by (simp add: waits_refl)
next
  case (Cons x xs)
  have "waits i s (snd (f x s))" using Cons.prems by simp
  moreover have "waits i (snd (f x s)) (snd (for_each f xs (snd (f x s))))"
    using Cons.prems by (intro Cons.IH) simp
  ultimately show ?case
    unfolding for_each_Cons_snd by (rule waits_trans)
qed

lemma process_fifos_waits: "waits i s (snd (process_fifos env s))"
  unfolding process_fifos_def by (rule for_each_waits) (rule fifo_body_waits)

lemma root_fifo_waits: "waits i s (snd (root_fifo env s))"
  by (simp add: root_fifo_def waits_refl read_fifo_waits)

lemma else_branch_waits: "waits i s (snd (else_branch env j s))"
proof (cases "queuecount (keyboard s ! j) = 0")
  case False
  then show ?thesis by (simp add: else_branch_idle waits_refl)
next
  case True
  have "waits i (snd (process_fifos env s))
          (set_kb j (updateindicators (led_changed env j) (keyboard (snd (process_fifos env s)) ! j))
             (snd (process_fifos env s)))"
    by (rule waits_set_kb) (simp_all add: updateindicators_def)
  with process_fifos_waits [of i s env] show ?thesis
    unfolding else_branch_pass [OF True] snd_conv by (rule waits_trans)
qed

lemma device_step_waits:
  assumes "j \<noteq> i"
  shows "waits i s (snd (device_step env j s))"
proof (cases "connected (keyboard s ! j)")
  case False
  then show ?thesis by (simp add: device_step_skip waits_refl)
next
  case conn: True
  let ?r = "fst (usbdequeue (send_ok env j) (keyboard s ! j))"
  let ?d = "snd (usbdequeue (send_ok env j) (keyboard s ! j))"
  let ?s1 = "set_kb j ?d s"
  have a: "waits i s ?s1"
    using assms by (intro waits_set_kb) (simp_all add: usbdequeue_fields)
  have b: "waits i ?s1 (snd (else_branch env j ?s1))"
    by (rule else_branch_waits)
  have c: "waits i ?s1 (set_kb j (closeusb ?d) ?s1)"
    using assms by (simp add: waits_def nth_set_kb_other)
  show ?thesis
  proof (cases "?r = 0")
    case False
    show ?thesis
      unfolding device_step_sent [OF conn False] snd_conv
      using a b by (rule waits_trans)
  next
    case failed: True
    show ?thesis
    proof (cases "reset_ok env j")
      case True
      show ?thesis
        unfolding device_step_reset [OF conn failed True] snd_conv
        using a b by (rule waits_trans)
    next
      case False
      show ?thesis
        unfolding device_step_close [OF conn failed False] snd_conv
        using a c by (rule waits_trans)
    qed
  qed
qed

lemma device_loop_waits:
  assumes "i \<notin> set xs"
  shows "waits i s (snd (for_each (device_step env) xs s))"
proof (rule for_each_waits)
  fix x t assume "x \<in> set xs"
  with assms have "x \<noteq> i" by auto
  then show "waits i t (snd (device_step env x t))" by (rule device_step_waits)
qed

text \<open>The step of a connected slot makes its one call of \<^verbatim>\<open>usbdequeue\<close>; with a message
  queued, a transport that refuses it and a reset that fails, the slot is closed.\<close>

lemma device_step_turn:
  assumes i: "i < length (keyboard s)" and conn: "connected (keyboard s ! i)"
  shows "length (filter (is_dequeue i) (fst (device_step env i s))) = 1 \<and>
         (0 < queuecount (keyboard s ! i) \<and> \<not> send_ok env i \<and> \<not> reset_ok env i \<longrightarrow>
            fst (device_step env i s) =
              [Lock (Kbmutex i), UsbDequeue i 0, UsbTryReset i (- 1), CloseUsb i] \<and>
            \<not> connected (keyboard (snd (device_step env i s)) ! i))"
proof -
  let ?r = "fst (usbdequeue (send_ok env i) (keyboard s ! i))"
  let ?s1 = "set_kb i (snd (usbdequeue (send_ok env i) (keyboard s ! i))) s"
  have q: "filter (is_dequeue i) (fst (else_branch env i ?s1)) = []"
    using else_branch_quiet [of _ env i ?s1 i 0] by (auto simp: filter_empty_conv)
  have one: "length (filter (is_dequeue i) (fst (device_step env i s))) = 1"
  proof (cases "?r = 0")
    case False
    show ?thesis
      unfolding device_step_sent [OF conn False] fst_conv
      using q by (simp add: is_dequeue_def)
  next
    case failed: True
    show ?thesis
    proof (cases "reset_ok env i")
      case True
      show ?thesis
        unfolding device_step_reset [OF conn failed True] fst_conv
        using q by (simp add: is_dequeue_def)
    next
      case False
      show ?thesis
        unfolding device_step_close [OF conn failed False] fst_conv
        by (simp add: is_dequeue_def)
    qed
  qed
  have close: "fst (device_step env i s) =
              [Lock (Kbmutex i), UsbDequeue i 0, UsbTryReset i (- 1), CloseUsb i] \<and>
            \<not> connected (keyboard (snd (device_step env i s)) ! i)"
    if "0 < queuecount (keyboard s ! i)" and "\<not> send_ok env i" and r: "\<not> reset_ok env i"
  proof -
    have failed: "?r = 0" using that by (simp add: usbdequeue_def)
    show ?thesis
      unfolding device_step_close [OF conn failed r] fst_conv snd_conv
      using i by (simp add: nth_set_kb_same closeusb_def)
  qed
  from one close show ?thesis by blast
qed

lemma sweep_turn:
  assumes i: "i < length (keyboard s)" and conn: "connected (keyboard s ! i)"
  shows "length (filter (is_dequeue i) (fst (sweep env s))) = 1 \<and>
         (0 < queuecount (keyboard s ! i) \<and> \<not> send_ok env i \<and> \<not> reset_ok env i \<longrightarrow>
            CloseUsb i \<in> set (fst (sweep env s)) \<and>
            \<not> connected (keyboard (snd (sweep env s)) ! i))"
proof -
  let ?s0 = "snd (root_fifo env s)"
  let ?e0 = "fst (root_fifo env s)"
  have w0: "waits i s ?s0" by (rule root_fifo_waits)
  then have len0: "length (keyboard ?s0) = length (keyboard s)" by (simp add: waits_def)
  let ?n = "length (keyboard ?s0)"
  have split: "[0..<?n] = [0..<i] @ i # [Suc i..<?n]"
    using i len0 by (intro upt_split_at) simp_all
  let ?sa = "snd (for_each (device_step env) [0..<i] ?s0)"
  let ?Ea = "fst (for_each (device_step env) [0..<i] ?s0)"
  let ?ei = "fst (device_step env i ?sa)"
  let ?si = "snd (device_step env i ?sa)"
  let ?Eb = "fst (for_each (device_step env) [Suc i..<?n] ?si)"
  let ?sb = "snd (for_each (device_step env) [Suc i..<?n] ?si)"
  have E: "fst (for_each (device_step env) [0..<?n] ?s0) = ?Ea @ ?ei @ ?Eb"
    and S: "snd (for_each (device_step env) [0..<?n] ?s0) = ?sb"
    by (simp_all only: split for_each_append for_each_Cons_fst for_each_Cons_snd fst_conv snd_conv)
  have wa: "waits i ?s0 ?sa" by (rule device_loop_waits) simp
  from waits_trans [OF w0 wa] have w: "waits i s ?sa" .
  then have i_a: "i < length (keyboard ?sa)" and conn_a: "connected (keyboard ?sa ! i)"
    and q_a: "queuecount (keyboard s ! i) \<le> queuecount (keyboard ?sa ! i)"
    using i conn by (simp_all add: waits_def)
  note turn = device_step_turn [OF i_a conn_a, of env]
  have na: "\<forall>e \<in> set ?Ea. about e \<noteq> Some i" by (rule device_loop_neutral) simp
  have nb: "\<forall>e \<in> set ?Eb. about e \<noteq> Some i" by (rule device_loop_neutral) simp
  have n0: "\<forall>e \<in> set ?e0. about e \<noteq> Some i" by (auto dest: root_fifo_about)
  note A = neutral_events [OF na] and B = neutral_events [OF nb] and Z = neutral_events [OF n0]
  have wb: "waits i ?si ?sb" by (rule device_loop_waits) simp
  have ev: "fst (sweep env s) = [Lock Kblistmutex] @ ?e0 @ (?Ea @ ?ei @ ?Eb) @ [Unlock Kblistmutex]"
    by (simp only: sweep_events E)
  have st: "snd (sweep env s) = ?sb"
    by (simp only: sweep_state S)
  have c1: "length (filter (is_dequeue i) (fst (sweep env s))) = 1"
    using A B Z turn by (simp add: ev is_dequeue_def)
  have c2: "CloseUsb i \<in> set (fst (sweep env s)) \<and> \<not> connected (keyboard (snd (sweep env s)) ! i)"
    if "0 < queuecount (keyboard s ! i)" and "\<not> send_ok env i" and "\<not> reset_ok env i"
  proof -
    from that q_a turn have "?ei = [Lock (Kbmutex i), UsbDequeue i 0, UsbTryReset i (- 1), CloseUsb i]"
      and "\<not> connected (keyboard ?si ! i)"
      by simp_all
    with wb show ?thesis
      by (simp add: ev st waits_def)
  qed
  from c1 c2 show ?thesis by blast
qed

text \<open>
  C1. In every tick at most one call of \<^verbatim>\<open>usbdequeue\<close> is made for a device, whatever
  its queue holds, and exactly one for a device that is connected when the tick
  starts. When that call returns 0 (the send failed) and the call of \<^verbatim>\<open>usb_tryreset\<close>
  that follows returns non-zero (the reset failed), \<^verbatim>\<open>closeusb\<close> is called for the
  device in the same tick and the device is not connected when the sweep ends; this
  is what happens to a connected device with a message queued whenever the transport
  refuses the message and the reset fails.
\<close>

theorem drain_once:
  "length (filter (is_dequeue i) (fst (sweep env s))) \<le> 1 \<and>
   (i < length (keyboard s) \<and> connected (keyboard s ! i) \<longrightarrow>
      length (filter (is_dequeue i) (fst (sweep env s))) = 1) \<and>
   (UsbDequeue i 0 \<in> set (fst (sweep env s)) \<and> UsbTryReset i r \<in> set (fst (sweep env s)) \<and>
      r \<noteq> 0 \<longrightarrow>
      CloseUsb i \<in> set (fst (sweep env s)) \<and> \<not> connected (keyboard (snd (sweep env s)) ! i)) \<and>
   (i < length (keyboard s) \<and> connected (keyboard s ! i) \<and> 0 < queuecount (keyboard s ! i) \<and>
      \<not> send_ok env i \<and> \<not> reset_ok env i \<longrightarrow>
      CloseUsb i \<in> set (fst (sweep env s)) \<and> \<not> connected (keyboard (snd (sweep env s)) ! i))"
proof -
  from sweep_shape [of env s i r] obtain body where
    b: "fst (sweep env s) = Lock Kblistmutex # body @ [Unlock Kblistmutex]"
    and d: "length (filter (is_dequeue i) body) \<le> 1"
    and c: "UsbTryReset i r \<in> set body \<and> r \<noteq> 0 \<longrightarrow>
        UsbDequeue i 0 \<in> set body \<and> CloseUsb i \<in> set body \<and>
        \<not> connected (keyboard (snd (sweep env s)) ! i)"
    by blast
  have c1: "length (filter (is_dequeue i) (fst (sweep env s))) \<le> 1"
    using b d by (simp add: is_dequeue_def)
  have c3: "UsbDequeue i 0 \<in> set (fst (sweep env s)) \<and> UsbTryReset i r \<in> set (fst (sweep env s)) \<and>
      r \<noteq> 0 \<longrightarrow>
      CloseUsb i \<in> set (fst (sweep env s)) \<and> \<not> connected (keyboard (snd (sweep env s)) ! i)"
    using b c by auto
  from c1 c3 sweep_turn [of i s env] show ?thesis by blast
qed

theorem drain_once_witness:
  "UsbDequeue 1 0 \<in> set (fst (sweep ex_env_fail ex_state)) \<and>
   UsbTryReset 1 (- 1) \<in> set (fst (sweep ex_env_fail ex_state)) \<and>
   CloseUsb 1 \<in> set (fst (sweep ex_env_fail ex_state)) \<and>
   \<not> connected (keyboard (snd (sweep ex_env_fail ex_state)) ! 1) \<and>
   length (filter (is_dequeue 1) (fst (sweep ex_env_fail ex_state))) \<le> 1 \<and>
   fst (sweep ex_env ex_state) =
     [Lock Kblistmutex, ReadLines 0, Lock (Kbmutex 1), UsbDequeue 1 1, Unlock (Kbmutex 1),
      Unlock Kblistmutex]"
proof -
  have a: "UsbDequeue 1 0 \<in> set (fst (sweep ex_env_fail ex_state))"
    and b: "UsbTryReset 1 (- 1) \<in> set (fst (sweep ex_env_fail ex_state))"
    by code_simp+
  have c: "fst (sweep ex_env ex_state) =
     [Lock Kblistmutex, ReadLines 0, Lock (Kbmutex 1), UsbDequeue 1 1, Unlock (Kbmutex 1),
      Unlock Kblistmutex]"
    by code_simp
  from drain_once [where i = 1 and env = ex_env_fail and s = ex_state and r = "- 1"] a b c
  show ?thesis by simp
qed

subsection \<open>The sweep: when a read pass runs\<close>

lemma pass_open_iff:
  "pass_open env i t \<longleftrightarrow>
     connected (keyboard t ! i) \<and>
     (queuecount (keyboard t ! i) = 0 \<or> queuecount (keyboard t ! i) = 1 \<and> send_ok env i)"
  by (auto simp: pass_open_def usbdequeue_def usb_tryreset_def)

lemma pass_ran_iff: "pass_ran es \<longleftrightarrow> (\<exists>i. UpdateIndicators i \<in> set es)"
proof -
  have "is_indicator e \<longleftrightarrow> (\<exists>i. e = UpdateIndicators i)" for e
    by (cases e) (simp_all add: is_indicator_def)
  then show ?thesis
    by (auto simp: pass_ran_def list_ex_iff)
qed

lemma else_branch_indicator:
  "UpdateIndicators k \<in> set (fst (else_branch env i s)) \<longleftrightarrow>
     k = i \<and> queuecount (keyboard s ! i) = 0"
proof (cases "queuecount (keyboard s ! i) = 0")
  case False
  then show ?thesis by (simp add: else_branch_idle)
next
  case True
  have "UpdateIndicators k \<notin> set (fst (process_fifos env s))"
    using process_fifos_about [of "UpdateIndicators k" env s] by auto
  with True show ?thesis by (auto simp: else_branch_pass)
qed

lemma device_step_pass:
  assumes i: "i < length (keyboard t)"
  shows "UpdateIndicators k \<in> set (fst (device_step env i t)) \<longleftrightarrow> k = i \<and> pass_open env i t"
proof (cases "connected (keyboard t ! i)")
  case False
  then show ?thesis by (simp add: device_step_skip pass_open_def)
next
  case conn: True
  let ?r = "fst (usbdequeue (send_ok env i) (keyboard t ! i))"
  let ?d = "snd (usbdequeue (send_ok env i) (keyboard t ! i))"
  let ?s1 = "set_kb i ?d t"
  have q: "queuecount (keyboard ?s1 ! i) = queuecount ?d"
    using i by (simp add: nth_set_kb_same)
  show ?thesis
  proof (cases "?r = 0")
    case False
    show ?thesis
      unfolding device_step_sent [OF conn False] fst_conv
      using conn False q
      by (simp add: else_branch_indicator pass_open_def case_prod_beta)
  next
    case failed: True
    show ?thesis
    proof (cases "reset_ok env i")
      case True
      show ?thesis
        unfolding device_step_reset [OF conn failed True] fst_conv
        using conn failed True q
        by (simp add: else_branch_indicator pass_open_def case_prod_beta usb_tryreset_def)
    next
      case False
      show ?thesis
        unfolding device_step_close [OF conn failed False] fst_conv
        using conn failed False
        by (simp add: pass_open_def case_prod_beta usb_tryreset_def)
    qed
  qed
qed

lemma device_step_locked:
  assumes conn: "connected (keyboard t ! i)"
  shows "Lock (Kbmutex i) \<in> set (fst (device_step env i t)) \<and>
         (Unlock (Kbmutex i) \<in> set (fst (device_step env i t)) \<or>
          CloseUsb i \<in> set (fst (device_step env i t)))"
proof -
  let ?r = "fst (usbdequeue (send_ok env i) (keyboard t ! i))"
  let ?s1 = "set_kb i (snd (usbdequeue (send_ok env i) (keyboard t ! i))) t"
  note u = else_branch_unlocks [of i env ?s1 False]
  show ?thesis
  proof (cases "?r = 0")
    case False
    show ?thesis
      unfolding device_step_sent [OF conn False] fst_conv using u by simp
  next
    case failed: True
    show ?thesis
    proof (cases "reset_ok env i")
      case True
      show ?thesis
        unfolding device_step_reset [OF conn failed True] fst_conv using u by simp
    next
      case False
      show ?thesis
        unfolding device_step_close [OF conn failed False] fst_conv by simp
    qed
  qed
qed

lemma turn_waits: "waits i s (turn env s i)"
proof -
  have "waits i (snd (root_fifo env s)) (turn env s i)"
    unfolding turn_def by (rule device_loop_waits) simp
  with root_fifo_waits [of i s env] show ?thesis by (rule waits_trans)
qed

text \<open>The calls of a sweep, around the step of slot \<open>i\<close>.\<close>

lemma sweep_split:
  assumes i: "i < length (keyboard s)"
  shows "\<exists>a b. fst (sweep env s) =
           Lock Kblistmutex # a @ fst (device_step env i (turn env s i)) @ b @ [Unlock Kblistmutex] \<and>
           (\<forall>e \<in> set a \<union> set b. about e \<noteq> Some i)"
proof -
  let ?s0 = "snd (root_fifo env s)"
  let ?e0 = "fst (root_fifo env s)"
  have len0: "length (keyboard ?s0) = length (keyboard s)"
    using root_fifo_waits [of i s env] by (simp add: waits_def)
  let ?n = "length (keyboard ?s0)"
  have split: "[0..<?n] = [0..<i] @ i # [Suc i..<?n]"
    using i len0 by (intro upt_split_at) simp_all
  let ?sa = "snd (for_each (device_step env) [0..<i] ?s0)"
  let ?Ea = "fst (for_each (device_step env) [0..<i] ?s0)"
  let ?ei = "fst (device_step env i ?sa)"
  let ?si = "snd (device_step env i ?sa)"
  let ?Eb = "fst (for_each (device_step env) [Suc i..<?n] ?si)"
  have E: "fst (for_each (device_step env) [0..<?n] ?s0) = ?Ea @ ?ei @ ?Eb"
    by (simp only: split for_each_append for_each_Cons_fst for_each_Cons_snd fst_conv snd_conv)
  have na: "\<forall>e \<in> set ?Ea. about e \<noteq> Some i" by (rule device_loop_neutral) simp
  have nb: "\<forall>e \<in> set ?Eb. about e \<noteq> Some i" by (rule device_loop_neutral) simp
  have n0: "\<forall>e \<in> set ?e0. about e \<noteq> Some i" by (auto dest: root_fifo_about)
  have ev: "fst (sweep env s) = Lock Kblistmutex # (?e0 @ ?Ea) @ ?ei @ ?Eb @ [Unlock Kblistmutex]"
    by (simp only: sweep_events E append_Cons append_Nil append_assoc)
  show ?thesis
    apply (rule exI [of _ "?e0 @ ?Ea"])
    apply (rule exI [of _ ?Eb])
    using ev na nb n0 by (simp add: turn_def Ball_def)
qed

lemma sweep_slots:
  assumes "e \<in> set (fst (sweep env s))" and "about e = Some i"
  shows "i < length (keyboard s)"
proof -
  let ?s0 = "snd (root_fifo env s)"
  have len0: "length (keyboard ?s0) = length (keyboard s)"
    using root_fifo_waits [of 0 s env] by (simp add: waits_def)
  from assms have "e \<in> set (fst (root_fifo env s)) \<or>
      e \<in> set (fst (for_each (device_step env) [0..<length (keyboard ?s0)] ?s0))"
    by (auto simp: sweep_events)
  then show ?thesis
  proof
    assume "e \<in> set (fst (root_fifo env s))"
    from root_fifo_about [OF this] assms(2) show ?thesis by simp
  next
    assume "e \<in> set (fst (for_each (device_step env) [0..<length (keyboard ?s0)] ?s0))"
    from device_loop_about [OF this] assms(2) len0 show ?thesis by auto
  qed
qed

lemma sweep_pass:
  "UpdateIndicators i \<in> set (fst (sweep env s)) \<longleftrightarrow>
     i < length (keyboard s) \<and> pass_open env i (turn env s i)"
proof (cases "i < length (keyboard s)")
  case False
  with sweep_slots [of "UpdateIndicators i" env s i] show ?thesis by auto
next
  case True
  from sweep_split [OF True, of env] obtain a b where
    ev: "fst (sweep env s) =
           Lock Kblistmutex # a @ fst (device_step env i (turn env s i)) @ b @ [Unlock Kblistmutex]"
    and n: "\<forall>e \<in> set a \<union> set b. about e \<noteq> Some i"
    by blast
  have "about (UpdateIndicators i) = Some i" by simp
  with n have "UpdateIndicators i \<notin> set a \<and> UpdateIndicators i \<notin> set b" by blast
  moreover have "i < length (keyboard (turn env s i))"
    using True turn_waits [of i s env] by (simp add: waits_def)
  ultimately show ?thesis
    using True by (simp add: ev device_step_pass)
qed

lemma sweep_pass_when:
  "(pass_ran (fst (sweep env s)) \<longleftrightarrow>
      (\<exists>i < length (keyboard s). connected (keyboard s ! i) \<and>
         (queuecount (keyboard (turn env s i) ! i) = 0 \<or>
          queuecount (keyboard (turn env s i) ! i) = 1 \<and> send_ok env i))) \<and>
   queuecount (keyboard s ! k) \<le> queuecount (keyboard (turn env s k) ! k) \<and>
   ((\<forall>i < length (keyboard s). connected (keyboard s ! i) \<longrightarrow>
        2 \<le> queuecount (keyboard s ! i) \<or> 1 \<le> queuecount (keyboard s ! i) \<and> \<not> send_ok env i) \<longrightarrow>
      \<not> pass_ran (fst (sweep env s)))"
proof -
  have w: "connected (keyboard (turn env s i) ! i) = connected (keyboard s ! i) \<and>
           queuecount (keyboard s ! i) \<le> queuecount (keyboard (turn env s i) ! i)" for i
    using turn_waits [of i s env] by (simp add: waits_def)
  have a: "pass_ran (fst (sweep env s)) \<longleftrightarrow>
      (\<exists>i < length (keyboard s). connected (keyboard s ! i) \<and>
         (queuecount (keyboard (turn env s i) ! i) = 0 \<or>
          queuecount (keyboard (turn env s i) ! i) = 1 \<and> send_ok env i))"
    unfolding pass_ran_iff sweep_pass pass_open_iff using w by auto
  have c: "\<not> pass_ran (fst (sweep env s))"
    if h: "\<forall>i < length (keyboard s). connected (keyboard s ! i) \<longrightarrow>
        2 \<le> queuecount (keyboard s ! i) \<or> 1 \<le> queuecount (keyboard s ! i) \<and> \<not> send_ok env i"
  proof
    assume "pass_ran (fst (sweep env s))"
    with a obtain i where i: "i < length (keyboard s)" "connected (keyboard s ! i)"
      and q: "queuecount (keyboard (turn env s i) ! i) = 0 \<or>
          queuecount (keyboard (turn env s i) ! i) = 1 \<and> send_ok env i"
      by blast
    from h i have "2 \<le> queuecount (keyboard s ! i) \<or> 1 \<le> queuecount (keyboard s ! i) \<and> \<not> send_ok env i"
      by blast
    with q w [of i] show False by auto
  qed
  from a w [of k] c show ?thesis by blast
qed

lemma for_each_skip:
  "\<forall>x \<in> set xs. \<not> connected (keyboard t ! x) \<Longrightarrow> for_each (device_step env) xs t = ([], t)"
  by (induction xs) (simp_all add: device_step_skip)

lemma root_fifo_other:
  "j \<noteq> 0 \<Longrightarrow> keyboard (snd (root_fifo env s)) ! j = keyboard s ! j"
  by (simp add: root_fifo_def read_fifo_def case_prod_beta nth_set_kb_other)

text \<open>The first connected slot, when it is not slot 0, meets the table as the tick found
  it.\<close>

lemma turn_first:
  assumes "\<forall>x < j. \<not> connected (keyboard s ! x)" and "0 < j"
  shows "keyboard (turn env s j) ! j = keyboard s ! j"
proof -
  let ?s0 = "snd (root_fifo env s)"
  have "\<not> connected (keyboard ?s0 ! x)" if "x < j" for x
    using root_fifo_waits [of x s env] assms(1) that by (simp add: waits_def)
  then have "for_each (device_step env) [0..<j] ?s0 = ([], ?s0)"
    by (intro for_each_skip) simp
  then show ?thesis
    using assms(2) by (simp add: turn_def root_fifo_other)
qed

lemma sweep_first:
  assumes "0 < j" and "j < length (keyboard s)" and "connected (keyboard s ! j)"
    and "\<forall>x < j. \<not> connected (keyboard s ! x)"
  shows "UpdateIndicators j \<in> set (fst (sweep env s)) \<longleftrightarrow>
         queuecount (keyboard s ! j) = 0 \<or> queuecount (keyboard s ! j) = 1 \<and> send_ok env j"
  unfolding sweep_pass pass_open_iff turn_first [OF assms(4) assms(1)]
  using assms by simp

subsection \<open>The sweep: locks\<close>

text \<open>
  C6. The calls of a sweep are \<^verbatim>\<open>pthread_mutex_lock(&kblistmutex)\<close>, a body, and
  \<^verbatim>\<open>pthread_mutex_unlock(&kblistmutex)\<close>, and the body neither locks nor unlocks
  \<^verbatim>\<open>kblistmutex\<close>: it is held throughout. When the body ends, just before
  \<^verbatim>\<open>kblistmutex\<close> is unlocked, no device mutex is held; when the sweep ends no mutex is
  held at all, and the sleep is the next call of the tick. The mutex of every slot
  that is connected when the tick starts is locked in the sweep and then either
  unlocked or handed to \<^verbatim>\<open>closeusb\<close>. On the path where the device is closed the mutex
  was locked, \<^verbatim>\<open>main\<close> does not unlock it, and \<^verbatim>\<open>closeusb\<close> releases it.
\<close>

theorem sweep_locks:
  "(\<exists>body. fst (sweep env s) = Lock Kblistmutex # body @ [Unlock Kblistmutex] \<and>
      Lock Kblistmutex \<notin> set body \<and> Unlock Kblistmutex \<notin> set body \<and>
      held Kblistmutex (Lock Kblistmutex # body) \<and>
      \<not> held (Kbmutex i) (Lock Kblistmutex # body)) \<and>
   \<not> held m (fst (sweep env s)) \<and>
   (i < length (keyboard s) \<and> connected (keyboard s ! i) \<longrightarrow>
      Lock (Kbmutex i) \<in> set (fst (sweep env s)) \<and>
      (Unlock (Kbmutex i) \<in> set (fst (sweep env s)) \<or> CloseUsb i \<in> set (fst (sweep env s)))) \<and>
   (CloseUsb i \<in> set (fst (sweep env s)) \<longrightarrow>
      Lock (Kbmutex i) \<in> set (fst (sweep env s)) \<and>
      Unlock (Kbmutex i) \<notin> set (fst (sweep env s))) \<and>
   (tick env fps time0 time1 s = Some (es', s') \<longrightarrow>
      (\<exists>w. es' = fst (sweep env s) @ [Sleep w]))"
proof -
  from sweep_shape [of env s i 0] obtain body where
    b: "fst (sweep env s) = Lock Kblistmutex # body @ [Unlock Kblistmutex]"
    and k: "Lock Kblistmutex \<notin> set body" "Unlock Kblistmutex \<notin> set body"
    and h: "\<not> fold (lock_step (Kbmutex i)) body False"
    and c: "CloseUsb i \<in> set body \<longrightarrow> Unlock (Kbmutex i) \<notin> set body \<and> Lock (Kbmutex i) \<in> set body"
    by blast
  have h0: "held Kblistmutex (Lock Kblistmutex # body)"
    unfolding held_def using lock_step_kept [OF k(2), of True] by (simp add: lock_step_def)
  have h1: "\<not> held (Kbmutex i) (Lock Kblistmutex # body)"
    using h by (simp add: held_def lock_step_def)
  have h2: "\<not> held m (fst (sweep env s))"
  proof (cases m)
    case Kblistmutex
    then show ?thesis by (simp add: b held_def lock_step_def)
  next
    case (Kbmutex j)
    from sweep_shape [of env s j 0] obtain body' where
      "fst (sweep env s) = Lock Kblistmutex # body' @ [Unlock Kblistmutex]"
      and "\<not> fold (lock_step (Kbmutex j)) body' False"
      by blast
    then show ?thesis by (simp add: Kbmutex held_def lock_step_def)
  qed
  have h3: "Lock (Kbmutex i) \<in> set (fst (sweep env s)) \<and>
      (Unlock (Kbmutex i) \<in> set (fst (sweep env s)) \<or> CloseUsb i \<in> set (fst (sweep env s)))"
    if i: "i < length (keyboard s)" and conn: "connected (keyboard s ! i)"
  proof -
    from sweep_split [OF i, of env] obtain a b' where
      ev: "fst (sweep env s) =
           Lock Kblistmutex # a @ fst (device_step env i (turn env s i)) @ b' @ [Unlock Kblistmutex]"
      by blast
    have "connected (keyboard (turn env s i) ! i)"
      using conn turn_waits [of i s env] by (simp add: waits_def)
    from device_step_locked [OF this, of env] show ?thesis
      by (auto simp: ev)
  qed
  have h4: "CloseUsb i \<in> set (fst (sweep env s)) \<longrightarrow>
      Lock (Kbmutex i) \<in> set (fst (sweep env s)) \<and> Unlock (Kbmutex i) \<notin> set (fst (sweep env s))"
    using c by (simp add: b)
  have h5: "tick env fps time0 time1 s = Some (es', s') \<longrightarrow>
      (\<exists>w. es' = fst (sweep env s) @ [Sleep w])"
    by (auto simp: tick_def case_prod_beta split: option.splits)
  from b k h0 h1 h2 h3 h4 h5 show ?thesis by blast
qed

theorem sweep_locks_witness:
  "Lock (Kbmutex 1) \<in> set (fst (sweep ex_env ex_state)) \<and>
   Unlock (Kbmutex 1) \<in> set (fst (sweep ex_env ex_state)) \<and>
   \<not> held (Kbmutex 1) (fst (sweep ex_env ex_state)) \<and>
   fst (sweep ex_env_fail ex_state) =
     [Lock Kblistmutex, ReadLines 0, Lock (Kbmutex 1), UsbDequeue 1 0, UsbTryReset 1 (- 1),
      CloseUsb 1, Unlock Kblistmutex] \<and>
   held (Kbmutex 1) [Lock Kblistmutex, ReadLines 0, Lock (Kbmutex 1), UsbDequeue 1 0,
      UsbTryReset 1 (- 1)] \<and>
   \<not> held (Kbmutex 1) [Lock Kblistmutex, ReadLines 0, Lock (Kbmutex 1), UsbDequeue 1 0,
      UsbTryReset 1 (- 1), CloseUsb 1] \<and>
   \<not> held (Kbmutex 1) (fst (sweep ex_env_fail ex_state)) \<and>
   \<not> held Kblistmutex (fst (sweep ex_env_fail ex_state)) \<and>
   tick ex_env 30 \<lparr>tv_sec = 5, tv_nsec = 0\<rparr> \<lparr>tv_sec = 5, tv_nsec = 1000\<rparr> ex_state =
     Some ([Lock Kblistmutex, ReadLines 0, Lock (Kbmutex 1), UsbDequeue 1 1, Unlock (Kbmutex 1),
            Unlock Kblistmutex, Sleep \<lparr>tv_sec = 5, tv_nsec = 6666666\<rparr>],
           \<lparr>keyboard = [ex_root, ex_kb\<lparr>queuecount := 1\<rparr>], v120 = False\<rparr>)"
proof -
  have a: "CloseUsb 1 \<notin> set (fst (sweep ex_env ex_state))"
    and i: "(1::nat) < length (keyboard ex_state)" "connected (keyboard ex_state ! 1)"
    by code_simp+
  have f: "fst (sweep ex_env_fail ex_state) =
     [Lock Kblistmutex, ReadLines 0, Lock (Kbmutex 1), UsbDequeue 1 0, UsbTryReset 1 (- 1),
      CloseUsb 1, Unlock Kblistmutex]"
    by code_simp
  have p: "held (Kbmutex 1) [Lock Kblistmutex, ReadLines 0, Lock (Kbmutex 1), UsbDequeue 1 0,
      UsbTryReset 1 (- 1)]"
    "\<not> held (Kbmutex 1) [Lock Kblistmutex, ReadLines 0, Lock (Kbmutex 1), UsbDequeue 1 0,
      UsbTryReset 1 (- 1), CloseUsb 1]"
    by (simp_all add: held_def lock_step_def)
  have s: "sweep ex_env ex_state =
     ([Lock Kblistmutex, ReadLines 0, Lock (Kbmutex 1), UsbDequeue 1 1, Unlock (Kbmutex 1),
            Unlock Kblistmutex], \<lparr>keyboard = [ex_root, ex_kb\<lparr>queuecount := 1\<rparr>], v120 = False\<rparr>)"
    by code_simp
  have t: "tick ex_env 30 \<lparr>tv_sec = 5, tv_nsec = 0\<rparr> \<lparr>tv_sec = 5, tv_nsec = 1000\<rparr> ex_state =
     Some ([Lock Kblistmutex, ReadLines 0, Lock (Kbmutex 1), UsbDequeue 1 1, Unlock (Kbmutex 1),
            Unlock Kblistmutex, Sleep \<lparr>tv_sec = 5, tv_nsec = 6666666\<rparr>],
           \<lparr>keyboard = [ex_root, ex_kb\<lparr>queuecount := 1\<rparr>], v120 = False\<rparr>)"
    by (simp add: tick_def s wake_time_def frame_interval_def timespec_add_def timespec_gt_def)
  from sweep_locks [where env = ex_env and s = ex_state and i = 1 and m = "Kbmutex 1"]
    sweep_locks [where env = ex_env_fail and s = ex_state and i = 1 and m = "Kbmutex 1"]
    sweep_locks [where env = ex_env_fail and s = ex_state and i = 1 and m = Kblistmutex]
    a i f p t
  show ?thesis by simp
qed

subsection \<open>The sweep: command intake\<close>

text \<open>
  C5, amended. In every tick the root controller's channel, when open, is read once
  at the start of the sweep whatever the queues hold, and all its available lines
  are applied exactly once, in arrival order. The channels of all slots, the root
  controller's included, are read in a read pass. A read pass runs exactly when some
  connected device, at its turn in the sweep, has an empty outgoing queue after its
  send attempt: the queue was empty, or held one message that the transport accepted.
  The queue a device has at its turn is at least the one it had when the tick started,
  and is the same for the first connected device when that is not slot 0; so no read
  pass runs when every connected device starts the tick with two or more queued
  messages, or with one that the transport refuses. For every slot whose channel is
  still open at the end of the tick, the lines applied followed by the lines still
  pending are exactly the lines that were available: nothing is lost, repeated or
  reordered. When a read pass ran, all available lines of such a slot were applied;
  when none ran, no line of a physical device was applied, and the lines of a
  physical device whose channel is still open at the end of the tick are all still
  pending.
\<close>

theorem command_intake:
  assumes ne: "keyboard s \<noteq> []"
  shows "(infifo (keyboard s ! 0) \<noteq> 0 \<longrightarrow>
            applied 0 (fst (sweep env s)) = pending (keyboard s ! 0)) \<and>
         (k < length (keyboard s) \<and> infifo (keyboard (snd (sweep env s)) ! k) \<noteq> 0 \<longrightarrow>
            applied k (fst (sweep env s)) @ pending (keyboard (snd (sweep env s)) ! k) =
              pending (keyboard s ! k)) \<and>
         (pass_ran (fst (sweep env s)) \<and> k < length (keyboard s) \<and>
            infifo (keyboard (snd (sweep env s)) ! k) \<noteq> 0 \<longrightarrow>
            applied k (fst (sweep env s)) = pending (keyboard s ! k) \<and>
            pending (keyboard (snd (sweep env s)) ! k) = []) \<and>
         (\<not> pass_ran (fst (sweep env s)) \<and> 0 < k \<longrightarrow> applied k (fst (sweep env s)) = []) \<and>
         (\<not> pass_ran (fst (sweep env s)) \<and> 0 < k \<and> k < length (keyboard s) \<and>
            infifo (keyboard (snd (sweep env s)) ! k) \<noteq> 0 \<longrightarrow>
            pending (keyboard (snd (sweep env s)) ! k) = pending (keyboard s ! k)) \<and>
         (pass_ran (fst (sweep env s)) \<longleftrightarrow>
            (\<exists>i < length (keyboard s). connected (keyboard s ! i) \<and>
               (queuecount (keyboard (turn env s i) ! i) = 0 \<or>
                queuecount (keyboard (turn env s i) ! i) = 1 \<and> send_ok env i))) \<and>
         queuecount (keyboard s ! k) \<le> queuecount (keyboard (turn env s k) ! k) \<and>
         (0 < k \<and> (\<forall>x < k. \<not> connected (keyboard s ! x)) \<longrightarrow>
            keyboard (turn env s k) ! k = keyboard s ! k) \<and>
         ((\<forall>i < length (keyboard s). connected (keyboard s ! i) \<longrightarrow>
             2 \<le> queuecount (keyboard s ! i) \<or>
             1 \<le> queuecount (keyboard s ! i) \<and> \<not> send_ok env i) \<longrightarrow>
            \<not> pass_ran (fst (sweep env s)))"
proof -
  let ?s0 = "snd (root_fifo env s)"
  let ?e0 = "fst (root_fifo env s)"
  let ?e1 = "fst (for_each (device_step env) [0..<length (keyboard ?s0)] ?s0)"
  let ?s1 = "snd (sweep env s)"
  have f: "fifo_rel s (?e0 @ ?e1) ?s1" and st: "step_rel ?s0 ?e1 ?s1"
    using sweep_rel [OF ne] by simp_all
  have f0: "fifo_rel s ?e0 ?s0" using ne by (rule root_fifo_rel)
  have len0: "length (keyboard ?s0) = length (keyboard s)"
    using f0 by (simp add: fifo_rel_def)
  have a: "applied 0 (fst (sweep env s)) = pending (keyboard s ! 0)"
    if op: "infifo (keyboard s ! 0) \<noteq> 0"
  proof -
    from root_fifo_reads [OF ne op, of env]
    have r: "applied 0 ?e0 = pending (keyboard s ! 0)" and e: "pending (keyboard ?s0 ! 0) = []"
      by simp_all
    have "0 < length (keyboard ?s0)" using ne len0 by simp
    with st e have "applied 0 ?e1 = []"
      by (simp add: step_rel_def fifo_rel_def)
    with r show ?thesis by (simp add: applied_sweep)
  qed
  have b: "applied k (fst (sweep env s)) @ pending (keyboard ?s1 ! k) = pending (keyboard s ! k)"
    if "k < length (keyboard s)" and "infifo (keyboard ?s1 ! k) \<noteq> 0"
    using f that by (simp add: fifo_rel_def applied_sweep)
  have c: "applied k (fst (sweep env s)) = pending (keyboard s ! k) \<and>
           pending (keyboard ?s1 ! k) = []"
    if p: "pass_ran (fst (sweep env s))" and k: "k < length (keyboard s)"
      and op: "infifo (keyboard ?s1 ! k) \<noteq> 0"
  proof -
    from p have "pass_ran ?e1" by (simp add: pass_ran_sweep)
    with st k len0 op have "pending (keyboard ?s1 ! k) = []"
      by (simp add: step_rel_def)
    with b [OF k op] show ?thesis by simp
  qed
  have d: "applied k (fst (sweep env s)) = []"
    if np: "\<not> pass_ran (fst (sweep env s))" and k: "0 < k"
  proof -
    from np have "\<not> pass_ran ?e1" by (simp add: pass_ran_sweep)
    with st have "applied k ?e1 = []" by (simp add: step_rel_def)
    moreover from k have "applied k ?e0 = []" using root_fifo_quiet [of env s k] by simp
    ultimately show ?thesis by (simp add: applied_sweep)
  qed
  have e: "pending (keyboard ?s1 ! k) = pending (keyboard s ! k)"
    if np: "\<not> pass_ran (fst (sweep env s))" and k: "0 < k" "k < length (keyboard s)"
      and op: "infifo (keyboard ?s1 ! k) \<noteq> 0"
    using d [OF np k(1)] b [OF k(2) op] by simp
  have t: "keyboard (turn env s k) ! k = keyboard s ! k"
    if "0 < k" and "\<forall>x < k. \<not> connected (keyboard s ! x)"
    using that(2) that(1) by (rule turn_first)
  note g = sweep_pass_when [of env s k]
  from a b c d e t g show ?thesis by blast
qed

text \<open>
  C5, as stated, fails: a connected keyboard with two queued messages and one
  available command line. The send succeeds and leaves one message queued, so no
  read pass runs; the line is not applied in this tick and is still pending after it.
  In the first table the root controller is not among the slots that \<^verbatim>\<open>IS_CONNECTED\<close>
  reports, as its separate read at lines 226 to 230 and its separate close in \<^verbatim>\<open>quit\<close>
  suggest; \<^verbatim>\<open>IS_CONNECTED\<close> is defined in another file. In the second table it is
  among them and has two queued messages of its own: the outcome is the same.
\<close>

theorem backlog_blocks_intake:
  "connected (keyboard ex_state ! 1) \<and> infifo (keyboard ex_state ! 1) = 4 \<and>
   pending (keyboard ex_state ! 1) = [''rgb ff0000''] \<and>
   \<not> connected (keyboard ex_state ! 0) \<and>
   fst (sweep ex_env ex_state) =
     [Lock Kblistmutex, ReadLines 0, Lock (Kbmutex 1), UsbDequeue 1 1, Unlock (Kbmutex 1),
      Unlock Kblistmutex] \<and>
   applied 1 (fst (sweep ex_env ex_state)) = [] \<and>
   pending (keyboard (snd (sweep ex_env ex_state)) ! 1) = [''rgb ff0000''] \<and>
   fst (sweep ex_env \<lparr>keyboard = [ex_root\<lparr>connected := True, queuecount := 2\<rparr>, ex_kb],
                      v120 = False\<rparr>) =
     [Lock Kblistmutex, ReadLines 0, Lock (Kbmutex 0), UsbDequeue 0 1, Unlock (Kbmutex 0),
      Lock (Kbmutex 1), UsbDequeue 1 1, Unlock (Kbmutex 1), Unlock Kblistmutex] \<and>
   pending (keyboard (snd (sweep ex_env
      \<lparr>keyboard = [ex_root\<lparr>connected := True, queuecount := 2\<rparr>, ex_kb], v120 = False\<rparr>)) ! 1) =
     [''rgb ff0000'']"
  by code_simp

theorem command_intake_witness:
  "pass_ran (fst (sweep ex_env \<lparr>keyboard = [ex_root\<lparr>pending := [''fps 60'']\<rparr>,
                                           ex_kb\<lparr>queuecount := 1\<rparr>], v120 = False\<rparr>)) \<and>
   applied 1 (fst (sweep ex_env \<lparr>keyboard = [ex_root\<lparr>pending := [''fps 60'']\<rparr>,
                                            ex_kb\<lparr>queuecount := 1\<rparr>], v120 = False\<rparr>))
     = [''rgb ff0000''] \<and>
   applied 0 (fst (sweep ex_env \<lparr>keyboard = [ex_root\<lparr>pending := [''fps 60'']\<rparr>,
                                            ex_kb\<lparr>queuecount := 1\<rparr>], v120 = False\<rparr>))
     = [''fps 60''] \<and>
   \<not> pass_ran (fst (sweep ex_env ex_state)) \<and>
   applied 1 (fst (sweep ex_env ex_state)) = [] \<and>
   pending (keyboard (snd (sweep ex_env ex_state)) ! 1) = [''rgb ff0000'']"
proof -
  let ?s = "\<lparr>keyboard = [ex_root\<lparr>pending := [''fps 60'']\<rparr>, ex_kb\<lparr>queuecount := 1\<rparr>],
             v120 = False\<rparr>"
  have o: "infifo (keyboard (snd (sweep ex_env ?s)) ! 1) \<noteq> 0"
    and o': "infifo (keyboard (snd (sweep ex_env ex_state)) ! 1) \<noteq> 0"
    by code_simp+
  have r: "infifo (keyboard ?s ! 0) \<noteq> 0" "pending (keyboard ?s ! 0) = [''fps 60'']"
    "pending (keyboard ?s ! 1) = [''rgb ff0000'']"
    "\<not> connected (keyboard ?s ! 0)" "connected (keyboard ?s ! 1)"
    "queuecount (keyboard ?s ! 1) = 1" "send_ok ex_env 1"
    by (simp_all add: ex_root_def ex_kb_def ex_env_def)
  have q: "\<not> connected (keyboard ex_state ! 0)" "connected (keyboard ex_state ! 1)"
    "queuecount (keyboard ex_state ! 1) = 2" "pending (keyboard ex_state ! 1) = [''rgb ff0000'']"
    by (simp_all add: ex_state_def ex_root_def ex_kb_def)
  have l: "\<forall>i < length (keyboard ex_state). connected (keyboard ex_state ! i) \<longrightarrow>
             2 \<le> queuecount (keyboard ex_state ! i) \<or>
             1 \<le> queuecount (keyboard ex_state ! i) \<and> \<not> send_ok ex_env i"
    by (simp add: ex_state_def ex_root_def ex_kb_def less_Suc_eq)
  have ne: "keyboard ?s \<noteq> []" "keyboard ex_state \<noteq> []"
    by (simp_all add: ex_state_def)
  note A = command_intake [OF ne(1), where k = 1 and env = ex_env]
  note B = command_intake [OF ne(2), where k = 1 and env = ex_env]
  have t: "keyboard (turn ex_env ?s 1) ! 1 = keyboard ?s ! 1"
  proof -
    have "\<forall>x < 1. \<not> connected (keyboard ?s ! x)" using r(4) by simp
    with A show ?thesis by blast
  qed
  have p: "pass_ran (fst (sweep ex_env ?s))"
  proof -
    have "\<exists>i < length (keyboard ?s). connected (keyboard ?s ! i) \<and>
               (queuecount (keyboard (turn ex_env ?s i) ! i) = 0 \<or>
                queuecount (keyboard (turn ex_env ?s i) ! i) = 1 \<and> send_ok ex_env i)"
    proof -
      have "connected (keyboard ?s ! 1) \<and>
               (queuecount (keyboard (turn ex_env ?s 1) ! 1) = 0 \<or>
                queuecount (keyboard (turn ex_env ?s 1) ! 1) = 1 \<and> send_ok ex_env 1)"
        using t r by simp
      moreover have "1 < length (keyboard ?s)" by simp
      ultimately show ?thesis by blast
    qed
    with A show ?thesis by blast
  qed
  have n: "\<not> pass_ran (fst (sweep ex_env ex_state))"
    using B l by blast
  have i: "(1::nat) < length (keyboard ?s)" "(1::nat) < length (keyboard ex_state)" "(0::nat) < 1"
    by (simp_all add: ex_state_def)
  have a1: "applied 1 (fst (sweep ex_env ?s)) = [''rgb ff0000'']"
    using A p o i r(3) by metis
  have a0: "applied 0 (fst (sweep ex_env ?s)) = [''fps 60'']"
    using A r(1) r(2) by metis
  have b1: "applied 1 (fst (sweep ex_env ex_state)) = []"
    using B n i(3) by blast
  have b2: "pending (keyboard (snd (sweep ex_env ex_state)) ! 1) = [''rgb ff0000'']"
    using B n o' i q(4) by metis
  from p a1 a0 n b1 b2 show ?thesis by blast
qed

subsection \<open>The sweep: the packet multiplier\<close>

text \<open>
  C3, amended. The sleep interval of a tick is computed with the multiplier 12 when
  the variable \<^verbatim>\<open>v120\<close> of the loop is set after the sweep, and with 5 otherwise.
  \<^verbatim>\<open>v120\<close> is never cleared: set in this tick or an earlier one, it stays set. A sweep
  sets it only in a read pass and only when a slot with an open command channel has
  firmware version \<open>0x0120\<close> or later: it is set when a read pass ran and such a slot
  exists at the end of the tick, it is set only if such a slot existed at the start
  of the tick or it was set before, and it is unchanged when no read pass ran. A read
  pass runs exactly when some connected device, at its turn in the sweep, has an
  empty outgoing queue after its send attempt: the queue was empty, or held one
  message that the transport accepted. The queue a device has at its turn is at least
  the one it had when the tick started, and is the same for the first connected
  device when that is not slot 0; so no read pass runs when every connected device
  starts the tick with two or more queued messages, or with one that the transport
  refuses.
\<close>

theorem multiplier_latch:
  assumes ne: "keyboard s \<noteq> []" and fps: "0 < fps"
  shows "(\<exists>w. tick env fps time0 time1 s = Some (fst (sweep env s) @ [Sleep w], snd (sweep env s)) \<and>
              wake_time fps (v120 (snd (sweep env s))) time0 time1 = Some w) \<and>
         frame_interval fps (v120 (snd (sweep env s))) =
           Some (int (1000000000 div (fps * (if v120 (snd (sweep env s)) then 12 else 5)))) \<and>
         (v120 s \<longrightarrow> v120 (snd (sweep env s))) \<and>
         (v120 (snd (sweep env s)) \<longrightarrow> v120 s \<or> fast_slot s) \<and>
         (pass_ran (fst (sweep env s)) \<and> fast_slot (snd (sweep env s)) \<longrightarrow>
            v120 (snd (sweep env s))) \<and>
         (\<not> pass_ran (fst (sweep env s)) \<longrightarrow> v120 (snd (sweep env s)) = v120 s) \<and>
         (pass_ran (fst (sweep env s)) \<longleftrightarrow>
            (\<exists>i < length (keyboard s). connected (keyboard s ! i) \<and>
               (queuecount (keyboard (turn env s i) ! i) = 0 \<or>
                queuecount (keyboard (turn env s i) ! i) = 1 \<and> send_ok env i))) \<and>
         queuecount (keyboard s ! k) \<le> queuecount (keyboard (turn env s k) ! k) \<and>
         (0 < k \<and> (\<forall>x < k. \<not> connected (keyboard s ! x)) \<longrightarrow>
            keyboard (turn env s k) ! k = keyboard s ! k) \<and>
         ((\<forall>i < length (keyboard s). connected (keyboard s ! i) \<longrightarrow>
             2 \<le> queuecount (keyboard s ! i) \<or>
             1 \<le> queuecount (keyboard s ! i) \<and> \<not> send_ok env i) \<longrightarrow>
            \<not> pass_ran (fst (sweep env s)))"
proof -
  let ?s0 = "snd (root_fifo env s)"
  let ?e0 = "fst (root_fifo env s)"
  let ?e1 = "fst (for_each (device_step env) [0..<length (keyboard ?s0)] ?s0)"
  let ?s1 = "snd (sweep env s)"
  have f: "fifo_rel s (?e0 @ ?e1) ?s1" and st: "step_rel ?s0 ?e1 ?s1"
    using sweep_rel [OF ne] by simp_all
  have fi: "frame_interval fps (v120 ?s1) =
           Some (int (1000000000 div (fps * (if v120 ?s1 then 12 else 5))))"
    using fps by (rule frame_interval_value)
  then obtain w where w: "wake_time fps (v120 ?s1) time0 time1 = Some w"
    by (simp add: wake_time_def Let_def)
  then have t: "tick env fps time0 time1 s = Some (fst (sweep env s) @ [Sleep w], ?s1)"
    by (simp add: tick_def case_prod_beta)
  have v1: "v120 s \<longrightarrow> v120 ?s1" and v2: "v120 ?s1 \<longrightarrow> v120 s \<or> fast_slot s"
    using f by (simp_all add: fifo_rel_def)
  have v3: "pass_ran (fst (sweep env s)) \<and> fast_slot ?s1 \<longrightarrow> v120 ?s1"
    using st by (simp add: step_rel_def pass_ran_sweep)
  have v4: "\<not> pass_ran (fst (sweep env s)) \<longrightarrow> v120 ?s1 = v120 s"
    using st root_fifo_quiet [of env s] by (simp add: step_rel_def pass_ran_sweep)
  have tf: "keyboard (turn env s k) ! k = keyboard s ! k"
    if "0 < k" and "\<forall>x < k. \<not> connected (keyboard s ! x)"
    using that(2) that(1) by (rule turn_first)
  note g = sweep_pass_when [of env s k]
  from t w have tw: "\<exists>w. tick env fps time0 time1 s = Some (fst (sweep env s) @ [Sleep w], ?s1) \<and>
      wake_time fps (v120 ?s1) time0 time1 = Some w"
    by blast
  from tw fi v1 v2 v3 v4 tf g show ?thesis by blast
qed

text \<open>
  C3, as stated, fails: the multiplier is not decided by the devices connected in the
  tick. A keyboard with firmware \<open>0x0120\<close> sets \<^verbatim>\<open>v120\<close> in one tick and is closed in the
  next (failed send, failed reset). In the tick after that no connected device
  reports firmware \<open>0x0120\<close> or later, and the tick sleeps \<open>10^9 / 30 / 12\<close> ns. This is so
  whether or not \<^verbatim>\<open>IS_CONNECTED\<close>, which is defined in another file, reports the root
  controller: the first table has it not connected, the second connected.
\<close>

theorem multiplier_not_per_tick:
  "snd (sweep ex_env_fail (snd (sweep (ex_env\<lparr>queued_by := (\<lambda>_ _. 1)\<rparr>)
          \<lparr>keyboard = [ex_root, ex_kb\<lparr>queuecount := 1\<rparr>], v120 = False\<rparr>))) =
     \<lparr>keyboard = [ex_root, ex_empty], v120 = True\<rparr> \<and>
   \<not> list_ex (\<lambda>d. connected d \<and> fwversion d \<ge> 0x0120) [ex_root, ex_empty] \<and>
   tick ex_env 30 \<lparr>tv_sec = 5, tv_nsec = 0\<rparr> \<lparr>tv_sec = 5, tv_nsec = 1000\<rparr>
        \<lparr>keyboard = [ex_root, ex_empty], v120 = True\<rparr> =
     Some ([Lock Kblistmutex, ReadLines 0, Unlock Kblistmutex,
            Sleep \<lparr>tv_sec = 5, tv_nsec = 2777777\<rparr>],
           \<lparr>keyboard = [ex_root, ex_empty], v120 = True\<rparr>) \<and>
   snd (sweep ex_env_fail (snd (sweep (ex_env\<lparr>queued_by := (\<lambda>_ _. 1)\<rparr>)
          \<lparr>keyboard = [ex_root\<lparr>connected := True\<rparr>, ex_kb\<lparr>queuecount := 1\<rparr>], v120 = False\<rparr>))) =
     \<lparr>keyboard = [ex_root\<lparr>connected := True\<rparr>, ex_empty], v120 = True\<rparr> \<and>
   \<not> list_ex (\<lambda>d. connected d \<and> fwversion d \<ge> 0x0120) [ex_root\<lparr>connected := True\<rparr>, ex_empty] \<and>
   tick ex_env 30 \<lparr>tv_sec = 5, tv_nsec = 0\<rparr> \<lparr>tv_sec = 5, tv_nsec = 1000\<rparr>
        \<lparr>keyboard = [ex_root\<lparr>connected := True\<rparr>, ex_empty], v120 = True\<rparr> =
     Some ([Lock Kblistmutex, ReadLines 0, Lock (Kbmutex 0), UsbDequeue 0 (- 1), ReadLines 0,
            UpdateIndicators 0, Unlock (Kbmutex 0), Unlock Kblistmutex,
            Sleep \<lparr>tv_sec = 5, tv_nsec = 2777777\<rparr>],
           \<lparr>keyboard = [ex_root\<lparr>connected := True\<rparr>, ex_empty], v120 = True\<rparr>)"
proof -
  have c: "snd (sweep ex_env_fail (snd (sweep (ex_env\<lparr>queued_by := (\<lambda>_ _. 1)\<rparr>)
          \<lparr>keyboard = [ex_root, ex_kb\<lparr>queuecount := 1\<rparr>], v120 = False\<rparr>))) =
     \<lparr>keyboard = [ex_root, ex_empty], v120 = True\<rparr>"
    by code_simp
  have n: "\<not> list_ex (\<lambda>d. connected d \<and> fwversion d \<ge> 0x0120) [ex_root, ex_empty]"
    by code_simp
  have s2: "sweep ex_env \<lparr>keyboard = [ex_root, ex_empty], v120 = True\<rparr> =
     ([Lock Kblistmutex, ReadLines 0, Unlock Kblistmutex],
      \<lparr>keyboard = [ex_root, ex_empty], v120 = True\<rparr>)"
    by code_simp
  have t2: "tick ex_env 30 \<lparr>tv_sec = 5, tv_nsec = 0\<rparr> \<lparr>tv_sec = 5, tv_nsec = 1000\<rparr>
        \<lparr>keyboard = [ex_root, ex_empty], v120 = True\<rparr> =
     Some ([Lock Kblistmutex, ReadLines 0, Unlock Kblistmutex,
            Sleep \<lparr>tv_sec = 5, tv_nsec = 2777777\<rparr>],
           \<lparr>keyboard = [ex_root, ex_empty], v120 = True\<rparr>)"
    by (simp add: tick_def s2 wake_time_def frame_interval_def timespec_add_def timespec_gt_def)
  have c': "snd (sweep ex_env_fail (snd (sweep (ex_env\<lparr>queued_by := (\<lambda>_ _. 1)\<rparr>)
          \<lparr>keyboard = [ex_root\<lparr>connected := True\<rparr>, ex_kb\<lparr>queuecount := 1\<rparr>], v120 = False\<rparr>))) =
     \<lparr>keyboard = [ex_root\<lparr>connected := True\<rparr>, ex_empty], v120 = True\<rparr>"
    by code_simp
  have n': "\<not> list_ex (\<lambda>d. connected d \<and> fwversion d \<ge> 0x0120)
              [ex_root\<lparr>connected := True\<rparr>, ex_empty]"
    by code_simp
  have s3: "sweep ex_env \<lparr>keyboard = [ex_root\<lparr>connected := True\<rparr>, ex_empty], v120 = True\<rparr> =
     ([Lock Kblistmutex, ReadLines 0, Lock (Kbmutex 0), UsbDequeue 0 (- 1), ReadLines 0,
       UpdateIndicators 0, Unlock (Kbmutex 0), Unlock Kblistmutex],
      \<lparr>keyboard = [ex_root\<lparr>connected := True\<rparr>, ex_empty], v120 = True\<rparr>)"
    by code_simp
  have t3: "tick ex_env 30 \<lparr>tv_sec = 5, tv_nsec = 0\<rparr> \<lparr>tv_sec = 5, tv_nsec = 1000\<rparr>
        \<lparr>keyboard = [ex_root\<lparr>connected := True\<rparr>, ex_empty], v120 = True\<rparr> =
     Some ([Lock Kblistmutex, ReadLines 0, Lock (Kbmutex 0), UsbDequeue 0 (- 1), ReadLines 0,
            UpdateIndicators 0, Unlock (Kbmutex 0), Unlock Kblistmutex,
            Sleep \<lparr>tv_sec = 5, tv_nsec = 2777777\<rparr>],
           \<lparr>keyboard = [ex_root\<lparr>connected := True\<rparr>, ex_empty], v120 = True\<rparr>)"
    by (simp add: tick_def s3 wake_time_def frame_interval_def timespec_add_def timespec_gt_def)
  from c n t2 c' n' t3 show ?thesis by blast
qed

theorem multiplier_latch_witness:
  "pass_ran (fst (sweep ex_env \<lparr>keyboard = [ex_root, ex_kb\<lparr>queuecount := 1\<rparr>], v120 = False\<rparr>)) \<and>
   v120 (snd (sweep ex_env \<lparr>keyboard = [ex_root, ex_kb\<lparr>queuecount := 1\<rparr>], v120 = False\<rparr>)) \<and>
   frame_interval 30
     (v120 (snd (sweep ex_env \<lparr>keyboard = [ex_root, ex_kb\<lparr>queuecount := 1\<rparr>], v120 = False\<rparr>)))
     = Some 2777777 \<and>
   \<not> pass_ran (fst (sweep ex_env ex_state)) \<and>
   \<not> v120 (snd (sweep ex_env ex_state)) \<and>
   v120 (snd (sweep ex_env \<lparr>keyboard = [ex_root, ex_empty], v120 = True\<rparr>))"
proof -
  let ?s = "\<lparr>keyboard = [ex_root, ex_kb\<lparr>queuecount := 1\<rparr>], v120 = False\<rparr>"
  let ?t = "\<lparr>keyboard = [ex_root, ex_empty], v120 = True\<rparr>"
  have f: "fast_slot (snd (sweep ex_env ?s))" and z: "\<not> v120 ex_state"
    by code_simp+
  have ne: "keyboard ?s \<noteq> []" "keyboard ex_state \<noteq> []" "keyboard ?t \<noteq> []" and fps: "(0::nat) < 30"
    by (simp_all add: ex_state_def)
  note A = multiplier_latch [OF ne(1) fps, where k = 1 and env = ex_env]
  note B = multiplier_latch [OF ne(2) fps, where k = 1 and env = ex_env]
  note C = multiplier_latch [OF ne(3) fps, where k = 1 and env = ex_env]
  have r: "\<not> connected (keyboard ?s ! 0)" "connected (keyboard ?s ! 1)"
    "queuecount (keyboard ?s ! 1) = 1" "send_ok ex_env 1"
    by (simp_all add: ex_root_def ex_kb_def ex_env_def)
  have l: "\<forall>i < length (keyboard ex_state). connected (keyboard ex_state ! i) \<longrightarrow>
             2 \<le> queuecount (keyboard ex_state ! i) \<or>
             1 \<le> queuecount (keyboard ex_state ! i) \<and> \<not> send_ok ex_env i"
    by (simp add: ex_state_def ex_root_def ex_kb_def less_Suc_eq)
  have t: "keyboard (turn ex_env ?s 1) ! 1 = keyboard ?s ! 1"
  proof -
    have "\<forall>x < 1. \<not> connected (keyboard ?s ! x)" using r(1) by simp
    with A show ?thesis by blast
  qed
  have p: "pass_ran (fst (sweep ex_env ?s))"
  proof -
    have "\<exists>i < length (keyboard ?s). connected (keyboard ?s ! i) \<and>
               (queuecount (keyboard (turn ex_env ?s i) ! i) = 0 \<or>
                queuecount (keyboard (turn ex_env ?s i) ! i) = 1 \<and> send_ok ex_env i)"
    proof -
      have "connected (keyboard ?s ! 1) \<and>
               (queuecount (keyboard (turn ex_env ?s 1) ! 1) = 0 \<or>
                queuecount (keyboard (turn ex_env ?s 1) ! 1) = 1 \<and> send_ok ex_env 1)"
        using t r by simp
      moreover have "1 < length (keyboard ?s)" by simp
      ultimately show ?thesis by blast
    qed
    with A show ?thesis by blast
  qed
  have v: "v120 (snd (sweep ex_env ?s))"
    using A p f by blast
  have i: "frame_interval 30 (v120 (snd (sweep ex_env ?s))) = Some 2777777"
    using A v by simp
  have n: "\<not> pass_ran (fst (sweep ex_env ex_state))"
    using B l by blast
  have k: "v120 (snd (sweep ex_env ?t))"
    using C by simp
  have "\<not> v120 (snd (sweep ex_env ex_state))"
    using B n z by blast
  with p v i n k show ?thesis by blast
qed

subsection \<open>The pinwheel effect: the angle of a key\<close>

lemma first_frame:
  "next_frame 20 20 (1 / 2 ^ 30) \<lparr>pw_frame = - 1, pw_x = 0, pw_y = 0\<rparr> =
     \<lparr>pw_frame = 1 / 2 ^ 30, pw_x = 10, pw_y = 10\<rparr>"
  by code_simp

lemma wrapped_frame:
  "next_frame 20 20 (1 / 128 + 1 / 2 ^ 30) \<lparr>pw_frame = 127 / 128, pw_x = 10, pw_y = 10\<rparr> =
     \<lparr>pw_frame = 1 / 2 ^ 30, pw_x = 10, pw_y = 10\<rparr>"
  by code_simp

lemma first_position: "position_of (1 / 2 ^ 30) = 13176795 / 2 ^ 21"
  by code_simp

lemma key_offsets:
  "as_float (of_int 10) = 10" "as_float (of_int 5) = 5" "as_float (10 - 10) = 0"
  "as_float (10 - 5) = 5"
  by code_simp+

lemma angle_above:
  "as_float (ANGLE (as_double (ANGLE 0 - 13176795 / 2 ^ 21))) = - (24607324 / 2 ^ 47)"
  by code_simp

lemma not_above_pi: "\<not> - (24607324 / 2 ^ 47) > M_PI"
  by code_simp

lemma float_above: "as_double (M_PI * 2) < 13176795 / 2 ^ 21"
  by code_simp

text \<open>
  C9 fails on the code. The keyboard is 20 by 20, so the centre is \<open>(10, 10)\<close>, and a key
  lies at \<open>(10, 5)\<close>, straight above the centre, where \<^verbatim>\<open>atan2(0, 5)\<close> is 0. When \<^verbatim>\<open>frame\<close>
  is \<open>2^-30\<close> after the head of \<^verbatim>\<open>ckb_frame\<close>, on the first call with \<^verbatim>\<open>delta\<close> \<open>2^-30\<close>
  or on a later call that takes \<^verbatim>\<open>frame\<close> from \<open>127/128\<close> past 1 with \<^verbatim>\<open>delta\<close>
  \<open>1/128 + 2^-30\<close>, the \<^verbatim>\<open>double\<close> that \<^verbatim>\<open>ANGLE\<close> computes for \<^verbatim>\<open>position\<close> is just below
  \<open>2\<pi>\<close> and the \<^verbatim>\<open>float\<close> nearest to it is above: \<^verbatim>\<open>position\<close> is \<open>13176795 / 2^21\<close>, more
  than \<^verbatim>\<open>M_PI * 2.\<close>. For the key \<^verbatim>\<open>ANGLE\<close> then gets a negative argument, \<^verbatim>\<open>fmod\<close> keeps
  its sign, and \<^verbatim>\<open>theta\<close> is \<open>- 24607324 / 2^47\<close>, about \<open>-1.7e-7\<close>, with the symmetric
  option or without it: not an angle in \<open>[0, 2\<pi>)\<close>.
\<close>

theorem pinwheel_angle_negative:
  assumes "atan2 0 5 = 0"
  shows "fst (ckb_frame atan2 symmetric 20 20 [(10, 5)] (1 / 2 ^ 30)
                \<lparr>pw_frame = - 1, pw_x = 0, pw_y = 0\<rparr>) = [- (24607324 / 2 ^ 47)] \<and>
         fst (ckb_frame atan2 symmetric 20 20 [(10, 5)] (1 / 128 + 1 / 2 ^ 30)
                \<lparr>pw_frame = 127 / 128, pw_x = 10, pw_y = 10\<rparr>) = [- (24607324 / 2 ^ 47)] \<and>
         \<not> (0 \<le> hd (fst (ckb_frame atan2 symmetric 20 20 [(10, 5)] (1 / 2 ^ 30)
                \<lparr>pw_frame = - 1, pw_x = 0, pw_y = 0\<rparr>))) \<and>
         position_of (1 / 2 ^ 30) = 13176795 / 2 ^ 21 \<and>
         as_double (M_PI * 2) < position_of (1 / 2 ^ 30)"
proof -
  have k: "key_theta atan2 symmetric \<lparr>pw_frame = 1 / 2 ^ 30, pw_x = 10, pw_y = 10\<rparr>
             (13176795 / 2 ^ 21) (10, 5) = - (24607324 / 2 ^ 47)"
    unfolding key_theta_def Let_def fst_conv snd_conv
    using assms not_above_pi angle_above key_offsets by simp
  have a: "fst (ckb_frame atan2 symmetric 20 20 [(10, 5)] (1 / 2 ^ 30)
                \<lparr>pw_frame = - 1, pw_x = 0, pw_y = 0\<rparr>) = [- (24607324 / 2 ^ 47)]"
    by (simp only: ckb_frame_def Let_def first_frame pinwheel.select_convs first_position k
          list.map fst_conv)
  have b: "fst (ckb_frame atan2 symmetric 20 20 [(10, 5)] (1 / 128 + 1 / 2 ^ 30)
                \<lparr>pw_frame = 127 / 128, pw_x = 10, pw_y = 10\<rparr>) = [- (24607324 / 2 ^ 47)]"
    by (simp only: ckb_frame_def Let_def wrapped_frame pinwheel.select_convs first_position k
          list.map fst_conv)
  have c: "\<not> (0 \<le> hd (fst (ckb_frame atan2 symmetric 20 20 [(10, 5)] (1 / 2 ^ 30)
                \<lparr>pw_frame = - 1, pw_x = 0, pw_y = 0\<rparr>)))"
    unfolding a by simp
  have d: "as_double (M_PI * 2) < position_of (1 / 2 ^ 30)"
    unfolding first_position by (rule float_above)
  from a b c first_position d show ?thesis by blast
qed

theorem pinwheel_angle_negative_witness:
  "fst (ckb_frame (\<lambda>a b. 0) False 20 20 [(10, 5)] (1 / 2 ^ 30)
          \<lparr>pw_frame = - 1, pw_x = 0, pw_y = 0\<rparr>) = [- (24607324 / 2 ^ 47)] \<and>
   fst (ckb_frame (\<lambda>a b. 0) True 20 20 [(10, 5)] (1 / 128 + 1 / 2 ^ 30)
          \<lparr>pw_frame = 127 / 128, pw_x = 10, pw_y = 10\<rparr>) = [- (24607324 / 2 ^ 47)]"
  using pinwheel_angle_negative [of "\<lambda>a b. 0" False] pinwheel_angle_negative [of "\<lambda>a b. 0" True]
  by simp

end
